theory Spec2Isabelle
  imports Complex_Main
begin

chapter \<open>The embedding of the pipeline\<close>

section \<open>Strings\<close>

text \<open>
  A JavaScript string is modelled as a \<^typ>\<open>string\<close>, a list of bytes: its UTF-8
  encoding. The needles the code searches for and the characters its regular expressions
  name are all ASCII, and an ASCII byte never occurs inside the UTF-8 encoding of another
  character, so searching bytes agrees with searching UTF-16 code units.
  \<^verbatim>\<open>toLowerCase\<close> is modelled on ASCII: the letters \<open>A\<close> to \<open>Z\<close> are folded and
  every other byte passes through unchanged.
\<close>

fun startsWith :: "string \<Rightarrow> string \<Rightarrow> bool" where
  "startsWith s [] = True"
| "startsWith [] (c # cs) = False"
| "startsWith (x # xs) (c # cs) = (x = c \<and> startsWith xs cs)"

text \<open>\<^verbatim>\<open>s.includes(needle)\<close>\<close>

fun includes_str :: "string \<Rightarrow> string \<Rightarrow> bool" where
  "includes_str [] needle = (needle = [])"
| "includes_str (x # xs) needle = (startsWith (x # xs) needle \<or> includes_str xs needle)"

definition lowerChar :: "char \<Rightarrow> char" where
  "lowerChar c =
     (case map_of (zip ''ABCDEFGHIJKLMNOPQRSTUVWXYZ'' ''abcdefghijklmnopqrstuvwxyz'') c of
        Some l \<Rightarrow> l
      | None \<Rightarrow> c)"

definition toLowerCase :: "string \<Rightarrow> string" where
  "toLowerCase s = map lowerChar s"

text \<open>
  White space as \<^verbatim>\<open>String.prototype.trim\<close> and the class \<^verbatim>\<open>\s\<close> of regular
  expressions have it: the WhiteSpace and LineTerminator code points of ECMAScript, each
  written as its UTF-8 bytes. They are U+0009 to U+000D, U+0020, U+00A0, U+1680, U+2000 to
  U+200A, U+2028, U+2029, U+202F, U+205F, U+3000 and U+FEFF.
\<close>

definition whiteSpaceCodes :: "string list" where
  "whiteSpaceCodes =
     [[CHR 0x09], [CHR 0x0A], [CHR 0x0B], [CHR 0x0C], [CHR 0x0D], [CHR 0x20],
      [CHR 0xC2, CHR 0xA0],
      [CHR 0xE1, CHR 0x9A, CHR 0x80],
      [CHR 0xE2, CHR 0x80, CHR 0x80], [CHR 0xE2, CHR 0x80, CHR 0x81],
      [CHR 0xE2, CHR 0x80, CHR 0x82], [CHR 0xE2, CHR 0x80, CHR 0x83],
      [CHR 0xE2, CHR 0x80, CHR 0x84], [CHR 0xE2, CHR 0x80, CHR 0x85],
      [CHR 0xE2, CHR 0x80, CHR 0x86], [CHR 0xE2, CHR 0x80, CHR 0x87],
      [CHR 0xE2, CHR 0x80, CHR 0x88], [CHR 0xE2, CHR 0x80, CHR 0x89],
      [CHR 0xE2, CHR 0x80, CHR 0x8A],
      [CHR 0xE2, CHR 0x80, CHR 0xA8], [CHR 0xE2, CHR 0x80, CHR 0xA9],
      [CHR 0xE2, CHR 0x80, CHR 0xAF],
      [CHR 0xE2, CHR 0x81, CHR 0x9F],
      [CHR 0xE3, CHR 0x80, CHR 0x80],
      [CHR 0xEF, CHR 0xBB, CHR 0xBF]]"

text \<open>The white-space code point a string starts with, if there is one.\<close>

definition leadingWhiteSpace :: "string \<Rightarrow> string option" where
  "leadingWhiteSpace s = find (\<lambda>w. w \<noteq> [] \<and> startsWith s w) whiteSpaceCodes"

text \<open>
  A string cut into units: a white-space code point, marked \<open>True\<close>, or one byte of
  another character, marked \<open>False\<close>.
\<close>

function units :: "string \<Rightarrow> (bool \<times> string) list" where
  "units s =
     (if s = [] then []
      else case leadingWhiteSpace s of
        Some w \<Rightarrow> (True, w) # units (drop (length w) s)
      | None \<Rightarrow> (False, [hd s]) # units (tl s))"
  by pat_completeness auto
termination
proof (relation "measure length")
  show "wf (measure length)" by simp
next
  fix s :: string and w
  assume "s \<noteq> []" "leadingWhiteSpace s = Some w"
  then have "w \<noteq> []" by (auto simp: leadingWhiteSpace_def find_Some_iff)
  with \<open>s \<noteq> []\<close> show "(drop (length w) s, s) \<in> measure length" by simp
next
  fix s :: string
  assume "s \<noteq> []"
  then show "(tl s, s) \<in> measure length" by (cases s) simp_all
qed

declare units.simps [simp del]

text \<open>\<^verbatim>\<open>s.trim()\<close>: the white space at both ends is taken off.\<close>

definition trim :: "string \<Rightarrow> string" where
  "trim s = concat (map snd (rev (dropWhile fst (rev (dropWhile fst (units s))))))"

text \<open>
  \<^verbatim>\<open>s.replace(/\s{2,}/g, " ")\<close> on the units of a string: every maximal run of two or
  more white-space code points becomes one space, and a single one stays as it is.
\<close>

function collapseUnits :: "(bool \<times> string) list \<Rightarrow> string" where
  "collapseUnits [] = []"
| "collapseUnits ((white, u) # us) =
     (if white \<and> us \<noteq> [] \<and> fst (hd us) then '' '' @ collapseUnits (dropWhile fst us)
      else u @ collapseUnits us)"
  by pat_completeness auto
termination
proof (relation "measure length")
  show "wf (measure length)" by simp
next
  fix white :: bool and u :: string and us :: "(bool \<times> string) list"
  have "length (dropWhile fst us) \<le> length us" by (rule length_dropWhile_le)
  then show "(dropWhile fst us, (white, u) # us) \<in> measure length" by simp
next
  fix white :: bool and u :: string and us :: "(bool \<times> string) list"
  show "(us, (white, u) # us) \<in> measure length" by simp
qed

text \<open>The decimal rendering of a number inside a template literal, \<^verbatim>\<open>`${index + 1}`\<close>.\<close>

fun natToString :: "nat \<Rightarrow> string" where
  "natToString n =
     (if n < 10 then [''0123456789'' ! n]
      else natToString (n div 10) @ [''0123456789'' ! (n mod 10)])"

declare natToString.simps [simp del]

text \<open>
  JavaScript's \<^verbatim>\<open>a || b\<close> on an optional string: \<^verbatim>\<open>undefined\<close> and the empty string
  are falsy, every other string is truthy.
\<close>

definition truthy :: "string option \<Rightarrow> bool" where
  "truthy v = (case v of None \<Rightarrow> False | Some s \<Rightarrow> s \<noteq> [])"

definition orElse :: "string option \<Rightarrow> string \<Rightarrow> string" where
  "orElse v d = (if truthy v then the v else d)"

section \<open>Data model (\<^verbatim>\<open>src/types.ts\<close>)\<close>

text \<open>
  \<^verbatim>\<open>Partial<ImprovedTranscriptItem>\<close>: every field may be absent. The stage-1 response is
  parsed JSON, so the same holds for the items of a chunk's transcript.
\<close>

record ImprovedTranscriptItem =
  timestamp :: "string option"
  original :: "string option"
  edited :: "string option"
  uncertain :: "bool option"
  chitchat :: "bool option"
  speaker :: "string option"

text \<open>
  \<^verbatim>\<open>RefinedScriptItem\<close>. The fields \<^verbatim>\<open>speaker\<close> and \<^verbatim>\<open>text\<close> are written
  \<open>rs_speaker\<close> and \<open>rs_text\<close>: the first name is taken by the transcript item, the
  second is a keyword.
\<close>

record RefinedScriptItem =
  rs_speaker :: string
  start_timestamp :: string
  end_timestamp :: string
  rs_text :: string
  source_timestamps :: "string list"
  needs_review :: "bool option"

text \<open>\<^verbatim>\<open>RemovalItem\<close>, its fields prefixed with \<open>rm_\<close>.\<close>

record RemovalItem =
  rm_timestamp :: string
  rm_speaker :: string
  rm_reason :: string
  verbatim_excerpt :: string

record RemovalReport =
  removed_from_main :: "RemovalItem list"
  removal_summary :: string

text \<open>
  The counters are JavaScript numbers; they are modelled as integers. The field
  \<^verbatim>\<open>notes\<close> is written \<open>qa_notes\<close>, since \<open>notes\<close> is a keyword.
\<close>

record QAAudit =
  gv_coverage_attestation :: bool
  gv_items_total :: int
  gv_items_used_in_main :: int
  uncertain_items_count :: int
  risk_flags :: "string list"
  qa_notes :: string

record PostEditResult =
  mode :: string
  refined_script :: "RefinedScriptItem list"
  removal_report :: RemovalReport
  qa_audit :: QAAudit

section \<open>Segmenter: the chunk grid of \<open>initializeChunks\<close>\<close>

datatype ChunkStatus = Pending | Processing | Completed | Failed

text \<open>
  A chunk's \<^verbatim>\<open>content\<close> is the JSON text of the stage-1 response. The code only ever
  reads it through \<^verbatim>\<open>JSON.parse(chunk.content).improved_transcript\<close>, so the text is
  represented by what \<^verbatim>\<open>JSON.parse\<close> makes of it: \<open>Unparsable\<close> when the parse
  throws, otherwise the \<^verbatim>\<open>improved_transcript\<close> field, which may be absent.
\<close>

datatype ChunkContent = Unparsable | Parsed "ImprovedTranscriptItem list option"

text \<open>
  \<^verbatim>\<open>Chunk\<close>. The field \<^verbatim>\<open>id\<close> is written \<open>chunk_id\<close> (\<open>id\<close> is the identity
  function of HOL); \<^verbatim>\<open>index\<close> and \<^verbatim>\<open>error\<close> are written \<open>chunk_index\<close> and
  \<open>chunk_error\<close>, leaving the plain names to local variables. Times are JavaScript
  numbers, modelled as real numbers with exact arithmetic.
\<close>

record Chunk =
  chunk_id :: string
  chunk_index :: nat
  status :: ChunkStatus
  content :: "ChunkContent option"
  startSec :: real
  endSec :: real
  chunk_error :: "string option"

definition TARGET_CHUNK_SECONDS :: real where "TARGET_CHUNK_SECONDS = 60"
definition OVERLAP_SECONDS :: real where "OVERLAP_SECONDS = 3"
definition MAX_INLINE_DATA_BYTES :: real where "MAX_INLINE_DATA_BYTES = 18 * 1024 * 1024"

text \<open>\<^verbatim>\<open>src/utils/audioUtils.ts\<close>, with the default arguments written out.\<close>

definition estimateWavBytes :: "real \<Rightarrow> real" where
  "estimateWavBytes durationSec = durationSec * 16000 * 1 * (16 / 8)"

text \<open>
  The loop \<^verbatim>\<open>while (estimateWavBytes(chunkSeconds) > MAX_INLINE_DATA_BYTES && chunkSeconds > 15)
  chunkSeconds -= 15\<close>.
\<close>

function shrinkChunkSeconds :: "real \<Rightarrow> real" where
  "shrinkChunkSeconds chunkSeconds =
     (if estimateWavBytes chunkSeconds > MAX_INLINE_DATA_BYTES \<and> chunkSeconds > 15
      then shrinkChunkSeconds (chunkSeconds - 15) else chunkSeconds)"
  by pat_completeness auto
termination
proof (relation "measure (\<lambda>c. nat \<lceil>c\<rceil>)")
  show "wf (measure (\<lambda>c. nat \<lceil>c\<rceil>))" by simp
next
  fix chunkSeconds :: real
  assume "estimateWavBytes chunkSeconds > MAX_INLINE_DATA_BYTES \<and> chunkSeconds > 15"
  then have "\<lceil>chunkSeconds - 15\<rceil> < \<lceil>chunkSeconds\<rceil>" and "0 < \<lceil>chunkSeconds\<rceil>"
    by linarith+
  then show "(chunkSeconds - 15, chunkSeconds) \<in> measure (\<lambda>c. nat \<lceil>c\<rceil>)"
    by simp
qed

declare shrinkChunkSeconds.simps [simp del]

text \<open>
  \<^verbatim>\<open>Array.from({ length: totalChunks }, (_, i) => ...)\<close> with
  \<^verbatim>\<open>totalChunks = Math.ceil(durationSec / chunkSeconds)\<close>. A length that is not positive
  gives the empty array.
\<close>

definition newChunks :: "real \<Rightarrow> real \<Rightarrow> Chunk list" where
  "newChunks durationSec chunkSeconds =
     (let totalChunks = nat \<lceil>durationSec / chunkSeconds\<rceil> in
      map (\<lambda>i. \<lparr> chunk_id = ''chunk-'' @ natToString i, chunk_index = i, status = Pending,
                 content = None,
                 startSec = max 0 (real i * chunkSeconds - (if i > 0 then OVERLAP_SECONDS else 0)),
                 endSec = min durationSec (real (i + 1) * chunkSeconds),
                 chunk_error = None \<rparr>)
          [0..<totalChunks])"

text \<open>The chunks \<^verbatim>\<open>initializeChunks\<close> stores for a decoded file of the given duration.\<close>

definition initialChunks :: "real \<Rightarrow> Chunk list" where
  "initialChunks durationSec = newChunks durationSec (shrinkChunkSeconds TARGET_CHUNK_SECONDS)"

text \<open>The time window of a chunk.\<close>

definition window :: "Chunk \<Rightarrow> real \<times> real" where
  "window c = (startSec c, endSec c)"

section \<open>Batch Planner: \<open>buildBatchesByCharOrCount\<close>\<close>

text \<open>
  Source: \<^verbatim>\<open>src/hooks/useChunkProcessor.ts\<close>, \<^verbatim>\<open>buildBatchesByCharOrCount\<close>.
  The loop \<^verbatim>\<open>for (const item of items)\<close> carries three mutable variables:
  \<^verbatim>\<open>batches\<close>, \<^verbatim>\<open>currentBatch\<close> and \<^verbatim>\<open>currentCharCount\<close>. They are the three
  accumulators of \<open>batchLoop\<close>; \<^verbatim>\<open>push\<close> is \<open>@ [x]\<close>. The serialised size
  \<^verbatim>\<open>JSON.stringify(item).length\<close> is a library call on the item, taken as the
  parameter \<open>jsonLength\<close>, so the planner is modelled for any item type.
\<close>

fun batchLoop ::
  "('a \<Rightarrow> nat) \<Rightarrow> nat \<Rightarrow> nat \<Rightarrow> 'a list \<Rightarrow> 'a list list \<Rightarrow> 'a list \<Rightarrow> nat \<Rightarrow> 'a list list"
where
  "batchLoop jsonLength targetMaxChars maxItems [] batches currentBatch currentCharCount =
     (if length currentBatch > 0 then batches @ [currentBatch] else batches)"
| "batchLoop jsonLength targetMaxChars maxItems (item # rest) batches currentBatch currentCharCount =
     (let itemCharCount = jsonLength item in
      if length currentBatch > 0 \<and>
         (currentCharCount + itemCharCount > targetMaxChars \<or> length currentBatch \<ge> maxItems)
      then batchLoop jsonLength targetMaxChars maxItems rest
             (batches @ [currentBatch]) [item] itemCharCount
      else batchLoop jsonLength targetMaxChars maxItems rest
             batches (currentBatch @ [item]) (currentCharCount + itemCharCount))"

definition buildBatchesByCharOrCount ::
  "('a \<Rightarrow> nat) \<Rightarrow> 'a list \<Rightarrow> nat \<Rightarrow> nat \<Rightarrow> 'a list list"
where
  "buildBatchesByCharOrCount jsonLength items targetMaxChars maxItems =
     (if length items = 0 then []
      else batchLoop jsonLength targetMaxChars maxItems items [] [] 0)"

text \<open>
  Vocabulary for the claim about batch boundaries. \<open>charCount\<close> is the serialised size of a
  batch. \<open>boundaryDue b x\<close> is the planner's test for closing the non-empty batch \<open>b\<close>
  before the item \<open>x\<close>. \<open>noEarlierBoundary b\<close> says that the test was false at every
  position inside \<open>b\<close>. \<open>greedyBatches\<close> says both for a whole list of batches: inside a
  batch the test never fired, and between two neighbouring batches it did.
\<close>

definition charCount :: "('a \<Rightarrow> nat) \<Rightarrow> 'a list \<Rightarrow> nat" where
  "charCount jsonLength b = sum_list (map jsonLength b)"

definition boundaryDue :: "('a \<Rightarrow> nat) \<Rightarrow> nat \<Rightarrow> nat \<Rightarrow> 'a list \<Rightarrow> 'a \<Rightarrow> bool" where
  "boundaryDue jsonLength targetMaxChars maxItems b x =
     (charCount jsonLength b + jsonLength x > targetMaxChars \<or> length b \<ge> maxItems)"

definition noEarlierBoundary :: "('a \<Rightarrow> nat) \<Rightarrow> nat \<Rightarrow> nat \<Rightarrow> 'a list \<Rightarrow> bool" where
  "noEarlierBoundary jsonLength targetMaxChars maxItems b =
     (\<forall>n \<in> {1..<length b}. \<not> boundaryDue jsonLength targetMaxChars maxItems (take n b) (b ! n))"

fun greedyBatches :: "('a \<Rightarrow> nat) \<Rightarrow> nat \<Rightarrow> nat \<Rightarrow> 'a list list \<Rightarrow> bool" where
  "greedyBatches jsonLength targetMaxChars maxItems [] = True"
| "greedyBatches jsonLength targetMaxChars maxItems [b] =
     noEarlierBoundary jsonLength targetMaxChars maxItems b"
| "greedyBatches jsonLength targetMaxChars maxItems (b # c # bs) =
     (noEarlierBoundary jsonLength targetMaxChars maxItems b \<and>
      boundaryDue jsonLength targetMaxChars maxItems b (hd c) \<and>
      greedyBatches jsonLength targetMaxChars maxItems (c # bs))"

section \<open>Result Merger: \<open>mergePostEditResults\<close>\<close>

text \<open>
  \<^verbatim>\<open>[...new Set(xs)]\<close>: a JavaScript \<^verbatim>\<open>Set\<close> keeps insertion order, so the result holds
  the first occurrence of every element of \<open>xs\<close>, in order.
\<close>

definition newSet :: "'a list \<Rightarrow> 'a list" where
  "newSet xs = fold (\<lambda>x seen. if x \<in> set seen then seen else seen @ [x]) xs []"

text \<open>The separator \<^verbatim>\<open>`\n--- BATCH ${index + 1} ---\n`\<close>, present when \<open>s\<close> is non-empty.\<close>

definition batchSeparator :: "string \<Rightarrow> nat \<Rightarrow> string" where
  "batchSeparator s index =
     (if s \<noteq> [] then [CHR 0x0A] @ ''--- BATCH '' @ natToString (index + 1) @ '' ---'' @ [CHR 0x0A]
      else [])"

text \<open>The callback of \<^verbatim>\<open>results.reduce((acc, current, index) => ..., initialValue)\<close>.\<close>

definition mergeStep :: "PostEditResult \<Rightarrow> PostEditResult \<Rightarrow> nat \<Rightarrow> PostEditResult" where
  "mergeStep acc current index =
     \<lparr> mode = ''POST_EDIT_LECTURE_SCRIPT_RESULT_BATCHED'',
       refined_script = refined_script acc @ refined_script current,
       removal_report =
         \<lparr> removed_from_main =
             removed_from_main (removal_report acc) @ removed_from_main (removal_report current),
           removal_summary =
             removal_summary (removal_report acc)
               @ batchSeparator (removal_summary (removal_report acc)) index
               @ removal_summary (removal_report current) \<rparr>,
       qa_audit =
         \<lparr> gv_coverage_attestation =
             (gv_coverage_attestation (qa_audit acc) \<and> gv_coverage_attestation (qa_audit current)),
           gv_items_total = gv_items_total (qa_audit acc) + gv_items_total (qa_audit current),
           gv_items_used_in_main =
             gv_items_used_in_main (qa_audit acc) + gv_items_used_in_main (qa_audit current),
           uncertain_items_count =
             uncertain_items_count (qa_audit acc) + uncertain_items_count (qa_audit current),
           risk_flags = newSet (risk_flags (qa_audit acc) @ risk_flags (qa_audit current)),
           qa_notes =
             qa_notes (qa_audit acc) @ batchSeparator (qa_notes (qa_audit acc)) index
               @ qa_notes (qa_audit current) \<rparr> \<rparr>"

fun reduceResults :: "nat \<Rightarrow> PostEditResult \<Rightarrow> PostEditResult list \<Rightarrow> PostEditResult" where
  "reduceResults index acc [] = acc"
| "reduceResults index acc (current # rest) =
     reduceResults (index + 1) (mergeStep acc current index) rest"

definition emptyMergeResult :: PostEditResult where
  "emptyMergeResult =
     \<lparr> mode = ''EMPTY'', refined_script = [],
       removal_report = \<lparr> removed_from_main = [], removal_summary = ''No results.'' \<rparr>,
       qa_audit = \<lparr> gv_coverage_attestation = False, gv_items_total = 0,
                    gv_items_used_in_main = 0, uncertain_items_count = 0,
                    risk_flags = [''EMPTY_MERGE''], qa_notes = ''No results.'' \<rparr> \<rparr>"

definition initialValue :: PostEditResult where
  "initialValue =
     \<lparr> mode = ''POST_EDIT_LECTURE_SCRIPT_RESULT_BATCHED'', refined_script = [],
       removal_report = \<lparr> removed_from_main = [], removal_summary = [] \<rparr>,
       qa_audit = \<lparr> gv_coverage_attestation = True, gv_items_total = 0,
                    gv_items_used_in_main = 0, uncertain_items_count = 0,
                    risk_flags = [], qa_notes = [] \<rparr> \<rparr>"

definition mergePostEditResults :: "PostEditResult list \<Rightarrow> PostEditResult" where
  "mergePostEditResults results =
     (if length results = 0 then emptyMergeResult
      else if length results = 1 then results ! 0
      else reduceResults 0 initialValue results)"

section \<open>Robust Invocation Engine: \<open>runStep2Robust\<close>\<close>

definition STEP2_MIN_SPLIT_ITEMS :: nat where "STEP2_MIN_SPLIT_ITEMS = 40"
definition STEP2_MAX_SPLIT_DEPTH :: nat where "STEP2_MAX_SPLIT_DEPTH = 6"
definition STEP2_MAX_RETRIES :: nat where "STEP2_MAX_RETRIES = 3"

text \<open>
  A thrown JavaScript error: its class name and its message. \<^verbatim>\<open>error instanceof
  SyntaxError\<close> is the test on the name, and \<^verbatim>\<open>error.message || String(error)\<close> is
  the message when it is non-empty and otherwise the name, which is what \<^verbatim>\<open>String\<close>
  gives for an error without a message.
\<close>

datatype JsError = JsError (errName: string) (message: string)

definition isSyntaxError :: "JsError \<Rightarrow> bool" where
  "isSyntaxError e = (errName e = ''SyntaxError'')"

definition errorMsg :: "JsError \<Rightarrow> string" where
  "errorMsg e = (if message e \<noteq> [] then message e else errName e)"

definition isInternalError :: "string \<Rightarrow> bool" where
  "isInternalError msg =
     (let lowerMsg = toLowerCase msg in
      includes_str lowerMsg ''internal error'' \<or> includes_str lowerMsg ''500''
        \<or> includes_str lowerMsg ''internal'')"

text \<open>
  The test of both \<^verbatim>\<open>catch\<close> blocks of the hook for a rate-limit error:
  \<^verbatim>\<open>msg.includes('429') || msg.includes('quota') || msg.includes('RESOURCE_EXHAUSTED')\<close>.
\<close>

definition isRateLimit :: "string \<Rightarrow> bool" where
  "isRateLimit msg =
     (includes_str msg ''429'' \<or> includes_str msg ''quota''
        \<or> includes_str msg ''RESOURCE_EXHAUSTED'')"

subsection \<open>The deterministic fallback\<close>

definition fallbackNotes :: string where
  "fallbackNotes =
     ''Step 2 output had an invalid schema. This is a deterministic fallback generated from Step 1''
       @ [CHR 0x27] @ ''s '' @ [CHR 0x27] @ ''edited'' @ [CHR 0x27] @ '' text.''"

definition buildStep2Fallback :: "ImprovedTranscriptItem list \<Rightarrow> string \<Rightarrow> PostEditResult" where
  "buildStep2Fallback items reason =
     (let refined =
            filter (\<lambda>x. length (rs_text x) > 0)
              (map (\<lambda>item.
                 \<lparr> rs_speaker = orElse (speaker item) ''[??]'',
                   start_timestamp = orElse (timestamp item) ''[00:00]'',
                   end_timestamp = orElse (timestamp item) ''[00:00]'',
                   rs_text = trim (orElse (edited item) (orElse (original item) [])),
                   source_timestamps =
                     (if truthy (timestamp item) then [the (timestamp item)] else []),
                   needs_review = Some True \<rparr>) items)
      in \<lparr> mode = ''POST_EDIT_LECTURE_SCRIPT_RESULT_FALLBACK'',
           refined_script = refined,
           removal_report =
             \<lparr> removed_from_main = [], removal_summary = ''FALLBACK_USED: '' @ reason \<rparr>,
           qa_audit =
             \<lparr> gv_coverage_attestation = False,
               gv_items_total = int (length items),
               gv_items_used_in_main = int (length refined),
               uncertain_items_count = int (length (filter (\<lambda>i. uncertain i = Some True) items)),
               risk_flags = [''FALLBACK_USED'', reason],
               qa_notes = fallbackNotes \<rparr> \<rparr>)"

text \<open>
  The best-available text of an input item in the words of the specification: the edited
  text, else the original text, trimmed.
\<close>

definition bestAvailableText :: "ImprovedTranscriptItem \<Rightarrow> string" where
  "bestAvailableText item =
     trim (if truthy (edited item) then the (edited item)
           else if truthy (original item) then the (original item) else [])"

subsection \<open>One call: \<open>runStep2Once\<close>\<close>

text \<open>
  What the transform service does with one request is not the program's to decide. The
  cases \<^verbatim>\<open>runStep2Once\<close> distinguishes are: the five-minute timer wins the
  \<^verbatim>\<open>Promise.race\<close>; the API call rejects with an error; the response has no text; the
  text does not parse (\<^verbatim>\<open>safeParseJSON\<close> gives \<^verbatim>\<open>ok: false\<close>; the argument stands for
  the reason, position and context that follow the prefix of the message); the text parses
  and \<^verbatim>\<open>normalizePostEdit\<close> returns a result.
\<close>

datatype ApiOutcome =
    TimesOut
  | Rejects JsError
  | EmptyText
  | InvalidJSON string
  | Parses PostEditResult

text \<open>
  The message of the timeout error is \<^verbatim>\<open>Timeout: Step 2 batch kh\<close>...; its Vietnamese
  words are written as their UTF-8 bytes.
\<close>

definition timeoutError :: JsError where
  "timeoutError =
     JsError ''Error''
       (''Timeout: Step 2 batch kh'' @ [CHR 0xC3, CHR 0xB4] @ ''ng ph''
          @ [CHR 0xE1, CHR 0xBA, CHR 0xA3] @ ''n h'' @ [CHR 0xE1, CHR 0xBB, CHR 0x93] @ ''i'')"

definition runStep2Once :: "ApiOutcome \<Rightarrow> JsError + PostEditResult" where
  "runStep2Once outcome =
     (case outcome of
        TimesOut \<Rightarrow> Inl timeoutError
      | Rejects e \<Rightarrow> Inl e
      | EmptyText \<Rightarrow> Inl (JsError ''Error'' ''Internal error: Step 2 empty response text'')
      | InvalidJSON detail \<Rightarrow> Inl (JsError ''Error'' (''Invalid JSON: '' @ detail))
      | Parses r \<Rightarrow> Inr r)"

subsection \<open>The retry loop\<close>

text \<open>
  The loop \<^verbatim>\<open>for (let i = 0; i < STEP2_MAX_RETRIES; i++)\<close> of \<^verbatim>\<open>runStep2Robust\<close>. It
  leaves in one of three ways: \<^verbatim>\<open>return\<close> with a result, \<^verbatim>\<open>throw error\<close>, or by
  running out of iterations. Beside the way it leaves, the model records the two effects
  the loop has: how many times it called \<^verbatim>\<open>runStep2Once\<close>, and the delays in
  milliseconds it slept, in order. The argument \<open>attempt\<close> gives the service's answer to
  the \<open>i\<close>-th call.
\<close>

datatype LoopExit = Returned PostEditResult | Thrown JsError | Exhausted

record RetryTrace =
  exit :: LoopExit
  calls :: nat
  sleeps :: "nat list"

definition retryable :: "JsError \<Rightarrow> bool" where
  "retryable e =
     (let msg = errorMsg e;
          isParseError = (includes_str msg ''Invalid JSON'' \<or> isSyntaxError e)
      in isInternalError msg \<or> isParseError)"

function retryLoop :: "(nat \<Rightarrow> ApiOutcome) \<Rightarrow> nat \<Rightarrow> RetryTrace" where
  "retryLoop attempt i =
     (if i < STEP2_MAX_RETRIES then
        (case runStep2Once (attempt i) of
           Inr r \<Rightarrow> \<lparr> exit = Returned r, calls = 1, sleeps = [] \<rparr>
         | Inl e \<Rightarrow>
             if retryable e then
               (let backoff = 3 ^ i * 2000;
                    slept = (if i < STEP2_MAX_RETRIES - 1 then [backoff] else []);
                    later = retryLoop attempt (i + 1)
                in \<lparr> exit = exit later, calls = 1 + calls later, sleeps = slept @ sleeps later \<rparr>)
             else \<lparr> exit = Thrown e, calls = 1, sleeps = [] \<rparr>)
      else \<lparr> exit = Exhausted, calls = 0, sleeps = [] \<rparr>)"
  by pat_completeness auto
termination
  by (relation "measure (\<lambda>(attempt, i). STEP2_MAX_RETRIES - i)") auto

declare retryLoop.simps [simp del]

text \<open>
  A call that fails with an error the loop retries: its message contains \<open>internal\<close> or
  \<open>500\<close> (in any letter case) or \<open>Invalid JSON\<close>, or it is a \<^verbatim>\<open>SyntaxError\<close>.
\<close>

definition retryableFailure :: "ApiOutcome \<Rightarrow> bool" where
  "retryableFailure out = (case runStep2Once out of Inl e \<Rightarrow> retryable e | Inr r \<Rightarrow> False)"

subsection \<open>Retry, split, fallback\<close>

text \<open>
  \<^verbatim>\<open>runStep2Robust(ai, model, items, addLog, depth)\<close>. A call is identified by its
  position \<open>path\<close> in the tree of recursive calls (\<open>False\<close> for the left half,
  \<open>True\<close> for the right half), so that the service may answer every call differently; the
  source's \<^verbatim>\<open>depth\<close> is the length of the path. \<open>Inl\<close> is a thrown error. The two
  halves run under \<^verbatim>\<open>Promise.all\<close> inside \<^verbatim>\<open>try\<close>: when either rejects, the
  \<^verbatim>\<open>catch\<close> returns the fallback for the whole unit.
\<close>

function runStep2Robust ::
  "(bool list \<Rightarrow> nat \<Rightarrow> ApiOutcome) \<Rightarrow> ImprovedTranscriptItem list \<Rightarrow> bool list
     \<Rightarrow> JsError + PostEditResult"
where
  "runStep2Robust api items path =
     (let depth = length path in
      case exit (retryLoop (api path) 0) of
        Returned r \<Rightarrow> Inr r
      | Thrown e \<Rightarrow> Inl e
      | Exhausted \<Rightarrow>
          if length items > STEP2_MIN_SPLIT_ITEMS \<and> depth < STEP2_MAX_SPLIT_DEPTH then
            (let mid = length items div 2;
                 leftResult = runStep2Robust api (take mid items) (path @ [False]);
                 rightResult = runStep2Robust api (drop mid items) (path @ [True])
             in case (leftResult, rightResult) of
                  (Inr l, Inr r) \<Rightarrow> Inr (mergePostEditResults [l, r])
                | _ \<Rightarrow> Inr (buildStep2Fallback items ''SPLIT_AND_RETRY_FAILED''))
          else Inr (buildStep2Fallback items ''MAX_RETRIES_AND_SPLITS_FAILED''))"
  by pat_completeness auto
termination
  by (relation "measure (\<lambda>(api, items, path). STEP2_MAX_SPLIT_DEPTH - length path)") auto

declare runStep2Robust.simps [simp del]

text \<open>
  The call returns the fallback for its whole unit by one of its own two
  \<^verbatim>\<open>return buildStep2Fallback(...)\<close> statements: its retry loop ran out of attempts, and
  then either the unit could not be split (too few items, or too deep), or it was split and
  one of the two halves threw.
\<close>

definition unitFallsBack ::
  "(bool list \<Rightarrow> nat \<Rightarrow> ApiOutcome) \<Rightarrow> ImprovedTranscriptItem list \<Rightarrow> bool list \<Rightarrow> bool"
where
  "unitFallsBack api items path =
     (exit (retryLoop (api path) 0) = Exhausted \<and>
      (if length items > STEP2_MIN_SPLIT_ITEMS \<and> length path < STEP2_MAX_SPLIT_DEPTH
       then isl (runStep2Robust api (take (length items div 2) items) (path @ [False])) \<or>
            isl (runStep2Robust api (drop (length items div 2) items) (path @ [True]))
       else True))"

text \<open>
  The engine exhausts its retries and its splits on a unit: the retry loop of the call ran
  out of attempts, and then the unit could not be split, or it was split and a half threw,
  or it was split and on each half the engine in turn exhausted its retries and its splits.
\<close>

function exhaustsRetriesAndSplits ::
  "(bool list \<Rightarrow> nat \<Rightarrow> ApiOutcome) \<Rightarrow> ImprovedTranscriptItem list \<Rightarrow> bool list \<Rightarrow> bool"
where
  "exhaustsRetriesAndSplits api items path =
     (exit (retryLoop (api path) 0) = Exhausted \<and>
      (if length items > STEP2_MIN_SPLIT_ITEMS \<and> length path < STEP2_MAX_SPLIT_DEPTH
       then isl (runStep2Robust api (take (length items div 2) items) (path @ [False])) \<or>
            isl (runStep2Robust api (drop (length items div 2) items) (path @ [True])) \<or>
            (exhaustsRetriesAndSplits api (take (length items div 2) items) (path @ [False]) \<and>
             exhaustsRetriesAndSplits api (drop (length items div 2) items) (path @ [True]))
       else True))"
  by pat_completeness auto
termination
  by (relation "measure (\<lambda>(api, items, path). STEP2_MAX_SPLIT_DEPTH - length path)") auto

declare exhaustsRetriesAndSplits.simps [simp del]

text \<open>
  What claim C1 says of the result for a unit: the texts of its entries are, in order,
  the non-empty best-available texts of the unit's items, one entry for each such item;
  every entry is marked for review; the risk flags hold \<open>FALLBACK_USED\<close> and a reason
  code; and nothing is reported as removed.
\<close>

definition passesItemsThrough :: "ImprovedTranscriptItem list \<Rightarrow> PostEditResult \<Rightarrow> bool" where
  "passesItemsThrough items r =
     (map rs_text (refined_script r) = filter (\<lambda>t. t \<noteq> []) (map bestAvailableText items) \<and>
      list_all (\<lambda>x. needs_review x = Some True \<and> rs_text x \<noteq> []) (refined_script r) \<and>
      ''FALLBACK_USED'' \<in> set (risk_flags (qa_audit r)) \<and>
      (''SPLIT_AND_RETRY_FAILED'' \<in> set (risk_flags (qa_audit r)) \<or>
       ''MAX_RETRIES_AND_SPLITS_FAILED'' \<in> set (risk_flags (qa_audit r))) \<and>
      removed_from_main (removal_report r) = [])"

section \<open>The hook \<open>useChunkProcessor\<close> as a state machine\<close>

text \<open>
  \<^verbatim>\<open>ProcessingStats\<close>, without \<^verbatim>\<open>startTime\<close> and \<^verbatim>\<open>endTime\<close>, which hold wall-clock
  readings and steer nothing.
\<close>

record ProcessingStats =
  total :: int
  completed :: int
  processing :: int
  failed :: int
  isCoolingDown :: bool
  cooldownSeconds :: int

text \<open>
  \<^verbatim>\<open>Batch\<close>, as the hook builds and updates it; its fields are prefixed with
  \<open>batch_\<close>.
\<close>

record Batch =
  batch_id :: string
  batch_index :: nat
  batch_items :: "ImprovedTranscriptItem list"
  batch_status :: ChunkStatus
  batch_result :: "PostEditResult option"
  batch_error :: "string option"

text \<open>
  The React state of the hook that takes part in scheduling: the \<^verbatim>\<open>useState\<close> cells
  \<^verbatim>\<open>chunks\<close>, \<^verbatim>\<open>stats\<close>, \<^verbatim>\<open>maxConcurrency\<close>, \<^verbatim>\<open>step2Batches\<close>,
  \<^verbatim>\<open>step2Stats\<close> and \<^verbatim>\<open>isFinalizing\<close>, and whether \<^verbatim>\<open>audioBufferRef.current\<close> is
  set. (The log, the merged result and the rate-limit banner are written but never read by
  the scheduling code.) \<open>apiKeyPresent\<close> is \<^verbatim>\<open>process.env.API_KEY\<close> being set; no event
  changes it. Two more components record what the JavaScript run time holds: the calls of
  \<^verbatim>\<open>processChunk\<close> and of \<^verbatim>\<open>processQueue\<close> that are suspended at an \<^verbatim>\<open>await\<close>,
  by the id of their chunk or batch.
\<close>

record HookState =
  chunks :: "Chunk list"
  stats :: ProcessingStats
  maxConcurrency :: int
  step2Batches :: "Batch list"
  step2Stats :: ProcessingStats
  isFinalizing :: bool
  audioBufferLoaded :: bool
  apiKeyPresent :: bool
  inFlight :: "string list"
  step2InFlight :: "string list"

definition zeroStats :: ProcessingStats where
  "zeroStats = \<lparr> total = 0, completed = 0, processing = 0, failed = 0,
                  isCoolingDown = False, cooldownSeconds = 0 \<rparr>"

text \<open>The state after the first render, with or without an API key configured.\<close>

definition initialState :: "bool \<Rightarrow> HookState" where
  "initialState key =
     \<lparr> chunks = [], stats = zeroStats, maxConcurrency = 5, step2Batches = [],
       step2Stats = zeroStats, isFinalizing = False, audioBufferLoaded = False,
       apiKeyPresent = key, inFlight = [], step2InFlight = [] \<rparr>"

subsection \<open>Stage 1\<close>

text \<open>
  \<^verbatim>\<open>initializeChunks\<close> runs in two parts, before and after \<^verbatim>\<open>await decodeAudioData\<close>.
  When decoding fails only the log changes.
\<close>

definition initializeStart :: "HookState \<Rightarrow> HookState" where
  "initializeStart s =
     s\<lparr> isFinalizing := False, chunks := [], step2Batches := [], maxConcurrency := 5 \<rparr>"

definition initializeDecoded :: "real \<Rightarrow> HookState \<Rightarrow> HookState" where
  "initializeDecoded durationSec s =
     (let newChunks = initialChunks durationSec in
      s\<lparr> audioBufferLoaded := True,
         chunks := newChunks,
         stats := (stats s)\<lparr> total := int (length newChunks), completed := 0, processing := 0,
                              failed := 0, isCoolingDown := False, cooldownSeconds := 0 \<rparr> \<rparr>)"

text \<open>
  \<^verbatim>\<open>processChunk(chunkId)\<close> up to its first \<^verbatim>\<open>await\<close>. The state updates queued there
  are applied together; the call then stays suspended until the service settles it.
\<close>

definition processChunkStart :: "string \<Rightarrow> HookState \<Rightarrow> HookState" where
  "processChunkStart chunkId s =
     (if isCoolingDown (stats s) then s
      else if \<not> apiKeyPresent s then
        s\<lparr> chunks := map (\<lambda>c. if status c = Pending
                                then c\<lparr> status := Failed, chunk_error := Some ''Missing API Key'' \<rparr>
                                else c) (chunks s) \<rparr>
      else if \<not> audioBufferLoaded s then s
      else if find (\<lambda>c. chunk_id c = chunkId) (chunks s) = None then s
      else
        s\<lparr> stats := (stats s)\<lparr> processing := processing (stats s) + 1 \<rparr>,
           chunks := map (\<lambda>c. if chunk_id c = chunkId then c\<lparr> status := Processing \<rparr> else c)
                         (chunks s),
           inFlight := chunkId # inFlight s \<rparr>)"

text \<open>The scheduling part of the auto-run effect.\<close>

definition autoRun :: "HookState \<Rightarrow> HookState" where
  "autoRun s =
     (case find (\<lambda>c. status c = Pending) (chunks s) of
        Some pendingChunk \<Rightarrow>
          if processing (stats s) < maxConcurrency s \<and> \<not> isCoolingDown (stats s)
          then processChunkStart (chunk_id pendingChunk) s else s
      | None \<Rightarrow> s)"

text \<open>
  How a suspended \<^verbatim>\<open>processChunk\<close> call goes on: the \<^verbatim>\<open>try\<close> block runs to its end
  with the content to store, or an error is thrown inside it (by the service, by the
  timeout, by the checks on the response).
\<close>

datatype ChunkOutcome = ChunkSucceeds ChunkContent | ChunkThrows JsError

definition apiKeyInvalidText :: string where
  "apiKeyInvalidText =
     ''API Key kh'' @ [CHR 0xC3, CHR 0xB4] @ ''ng h'' @ [CHR 0xE1, CHR 0xBB, CHR 0xA3] @ ''p l''
       @ [CHR 0xE1, CHR 0xBB, CHR 0x87]"

definition decProcessing :: "ProcessingStats \<Rightarrow> ProcessingStats" where
  "decProcessing st = st\<lparr> processing := max 0 (processing st - 1) \<rparr>"

definition processChunkSettle :: "string \<Rightarrow> ChunkOutcome \<Rightarrow> HookState \<Rightarrow> HookState" where
  "processChunkSettle chunkId outcome s =
     (case outcome of
        ChunkSucceeds chunkResultJSON \<Rightarrow>
          s\<lparr> chunks := map (\<lambda>c. if chunk_id c = chunkId
                                  then c\<lparr> status := Completed, content := Some chunkResultJSON \<rparr>
                                  else c) (chunks s),
             stats := (decProcessing (stats s))\<lparr> completed := completed (stats s) + 1 \<rparr> \<rparr>
      | ChunkThrows error \<Rightarrow>
          (let msg = errorMsg error;
               isApiKeyInvalid =
                 (includes_str msg ''API key not valid'' \<or> includes_str msg ''API_KEY_INVALID'');
               s1 = (if isApiKeyInvalid
                     then s\<lparr> chunks :=
                            map (\<lambda>c. if chunk_id c = chunkId
                                      then c\<lparr> status := Failed,
                                              chunk_error := Some apiKeyInvalidText \<rparr>
                                      else c) (chunks s) \<rparr>
                     else s)
           in if \<not> isApiKeyInvalid \<and> isRateLimit msg then
                s\<lparr> maxConcurrency := 1,
                   chunks := map (\<lambda>c. if chunk_id c = chunkId
                                        then c\<lparr> status := Pending, chunk_error := None \<rparr>
                                        else c) (chunks s),
                   stats := decProcessing
                              ((stats s)\<lparr> isCoolingDown := True, cooldownSeconds := 60 \<rparr>) \<rparr>
              else
                s1\<lparr> chunks := map (\<lambda>c. if chunk_id c = chunkId
                                         then c\<lparr> status := Failed, chunk_error := Some msg \<rparr>
                                         else c) (chunks s1),
                    stats := (decProcessing (stats s1))\<lparr> failed := failed (stats s1) + 1 \<rparr> \<rparr>))"

text \<open>The callback of the cooldown timer, for one stage's statistics.\<close>

definition tickStats :: "ProcessingStats \<Rightarrow> ProcessingStats" where
  "tickStats prev =
     (if isCoolingDown prev \<and> cooldownSeconds prev > 0 then
        (let newValue = cooldownSeconds prev - 1 in
         if newValue \<le> 0 then prev\<lparr> isCoolingDown := False, cooldownSeconds := 0 \<rparr>
         else prev\<lparr> cooldownSeconds := newValue \<rparr>)
      else prev)"

definition retryChunk :: "string \<Rightarrow> HookState \<Rightarrow> HookState" where
  "retryChunk chunkId s =
     s\<lparr> chunks := map (\<lambda>c. if chunk_id c = chunkId
                             then c\<lparr> status := Pending, chunk_error := None \<rparr> else c) (chunks s),
        stats := (stats s)\<lparr> failed := max 0 (failed (stats s) - 1) \<rparr> \<rparr>"

definition retryAllFailed :: "HookState \<Rightarrow> HookState" where
  "retryAllFailed s =
     (if length (filter (\<lambda>c. status c = Failed) (chunks s)) = 0 then s
      else s\<lparr> chunks := map (\<lambda>c. if status c = Failed
                                  then c\<lparr> status := Pending, chunk_error := None \<rparr> else c)
                           (chunks s),
              stats := (stats s)\<lparr> failed := 0 \<rparr> \<rparr>)"

definition clearCooldownNow :: "HookState \<Rightarrow> HookState" where
  "clearCooldownNow s =
     s\<lparr> stats := (stats s)\<lparr> isCoolingDown := False, cooldownSeconds := 0 \<rparr>,
        step2Stats := (step2Stats s)\<lparr> isCoolingDown := False, cooldownSeconds := 0 \<rparr> \<rparr>"

text \<open>
  \<^verbatim>\<open>reset\<close> puts every state cell back; the calls that are suspended stay suspended and
  settle later.
\<close>

definition reset :: "HookState \<Rightarrow> HookState" where
  "reset s =
     s\<lparr> chunks := [], step2Batches := [], stats := zeroStats, step2Stats := zeroStats,
        maxConcurrency := 5, isFinalizing := False, audioBufferLoaded := False \<rparr>"

subsection \<open>Stage 2\<close>

definition STEP2_TARGET_MAX_CHARS :: nat where "STEP2_TARGET_MAX_CHARS = 80000"
definition STEP2_MAX_ITEMS_PER_BATCH :: nat where "STEP2_MAX_ITEMS_PER_BATCH = 50"

text \<open>
  \<^verbatim>\<open>buildSlimTranscript\<close>. \<^verbatim>\<open>item.edited.trim()\<close> throws a \<^verbatim>\<open>TypeError\<close> when the
  field is absent; the result is then \<open>None\<close>.
\<close>

definition buildSlimTranscript ::
  "ImprovedTranscriptItem list \<Rightarrow> ImprovedTranscriptItem list option"
where
  "buildSlimTranscript items =
     (if \<exists>item \<in> set items. edited item = None then None
      else Some (map (\<lambda>item.
             \<lparr> timestamp = timestamp item,
               original = (if uncertain item = Some True then original item else None),
               edited = Some (trim (the (edited item))),
               uncertain = uncertain item,
               chitchat = chitchat item,
               speaker = Some (orElse (speaker item) ''[??]'') \<rparr>) items))"

text \<open>
  \<^verbatim>\<open>performStep2Finalization\<close>, which \<^verbatim>\<open>triggerStep2\<close> calls with the merged
  transcript. \<open>jsonLength\<close> is the length of \<^verbatim>\<open>JSON.stringify(item)\<close>.
\<close>

definition performStep2Finalization ::
  "(ImprovedTranscriptItem \<Rightarrow> nat) \<Rightarrow> ImprovedTranscriptItem list \<Rightarrow> HookState \<Rightarrow> HookState"
where
  "performStep2Finalization jsonLength mergedTranscript s =
     (if isFinalizing s \<or> \<not> apiKeyPresent s then s
      else if length mergedTranscript = 0 then s
      else case buildSlimTranscript mergedTranscript of
        None \<Rightarrow> s
      | Some slimTranscript \<Rightarrow>
          (let batchesData = buildBatchesByCharOrCount jsonLength slimTranscript
                               STEP2_TARGET_MAX_CHARS STEP2_MAX_ITEMS_PER_BATCH;
               newBatches = map (\<lambda>(batchItems, i).
                                  \<lparr> batch_id = ''batch-'' @ natToString i, batch_index = i,
                                    batch_items = batchItems, batch_status = Pending,
                                    batch_result = None, batch_error = None \<rparr>)
                                (zip batchesData [0..<length batchesData])
           in s\<lparr> step2Batches := newBatches,
                 step2Stats := \<lparr> total = int (length newBatches), completed = 0, processing = 0,
                                 failed = 0, isCoolingDown = False, cooldownSeconds = 0 \<rparr>,
                 isFinalizing := True \<rparr>))"

text \<open>\<^verbatim>\<open>processQueue\<close> up to \<^verbatim>\<open>await runStep2Robust(...)\<close>.\<close>

definition processQueueStart :: "HookState \<Rightarrow> HookState" where
  "processQueueStart s =
     (if \<not> isFinalizing s \<or> processing (step2Stats s) > 0 \<or> isCoolingDown (step2Stats s) then s
      else case find (\<lambda>b. batch_status b = Pending) (step2Batches s) of
        None \<Rightarrow> s
      | Some nextBatch \<Rightarrow>
          s\<lparr> step2Batches := map (\<lambda>b. if batch_id b = batch_id nextBatch
                                        then b\<lparr> batch_status := Processing \<rparr> else b)
                                  (step2Batches s),
             step2Stats := (step2Stats s)\<lparr> processing := processing (step2Stats s) + 1 \<rparr>,
             step2InFlight := batch_id nextBatch # step2InFlight s \<rparr>)"

text \<open>
  The \<^verbatim>\<open>catch\<close> block of \<^verbatim>\<open>processQueue\<close>, and the rest of its \<^verbatim>\<open>try\<close> block once
  \<^verbatim>\<open>runStep2Robust\<close> has settled: a result whose mode contains \<open>FALLBACK\<close> is turned
  into a thrown error carrying the result's notes.
\<close>

definition processQueueCatch :: "string \<Rightarrow> JsError \<Rightarrow> HookState \<Rightarrow> HookState" where
  "processQueueCatch batchId error s =
     (let msg = errorMsg error in
      if isRateLimit msg then
        s\<lparr> step2Stats := (step2Stats s)\<lparr> isCoolingDown := True, cooldownSeconds := 60,
                                          processing := 0 \<rparr>,
           step2Batches := map (\<lambda>b. if batch_id b = batchId
                                      then b\<lparr> batch_status := Pending \<rparr> else b)
                                (step2Batches s) \<rparr>
      else
        s\<lparr> step2Batches := map (\<lambda>b. if batch_id b = batchId
                                      then b\<lparr> batch_status := Failed, batch_error := Some msg \<rparr>
                                      else b)
                                (step2Batches s),
           step2Stats := (step2Stats s)\<lparr> processing := 0,
                                          failed := failed (step2Stats s) + 1 \<rparr> \<rparr>)"

definition processQueueSettle ::
  "string \<Rightarrow> JsError + PostEditResult \<Rightarrow> HookState \<Rightarrow> HookState"
where
  "processQueueSettle batchId settled s =
     (case settled of
        Inl error \<Rightarrow> processQueueCatch batchId error s
      | Inr result \<Rightarrow>
          if includes_str (mode result) ''FALLBACK'' then
            processQueueCatch batchId
              (JsError ''Error''
                 (if qa_notes (qa_audit result) \<noteq> [] then qa_notes (qa_audit result)
                  else ''Processing failed after all retries and splits.'')) s
          else
            s\<lparr> step2Batches := map (\<lambda>b. if batch_id b = batchId
                                          then b\<lparr> batch_status := Completed,
                                                  batch_result := Some result,
                                                  batch_error := None \<rparr>
                                          else b)
                                    (step2Batches s),
               step2Stats := (step2Stats s)\<lparr> processing := 0,
                                              completed := completed (step2Stats s) + 1 \<rparr> \<rparr>)"

text \<open>The merging effect: once every batch is completed, finalizing ends.\<close>

definition mergeEffect :: "HookState \<Rightarrow> HookState" where
  "mergeEffect s =
     (if length (step2Batches s) > 0 \<and> (\<forall>b \<in> set (step2Batches s). batch_status b = Completed)
      then s\<lparr> isFinalizing := False \<rparr> else s)"

definition retryStep2Batch :: "string \<Rightarrow> HookState \<Rightarrow> HookState" where
  "retryStep2Batch batchId s =
     s\<lparr> step2Batches := map (\<lambda>b. if batch_id b = batchId
                                   then b\<lparr> batch_status := Pending, batch_error := None \<rparr>
                                   else b) (step2Batches s),
        step2Stats := (step2Stats s)\<lparr> failed := max 0 (failed (step2Stats s) - 1) \<rparr> \<rparr>"

definition retryAllFailedStep2 :: "HookState \<Rightarrow> HookState" where
  "retryAllFailedStep2 s =
     (if length (filter (\<lambda>b. batch_status b = Failed) (step2Batches s)) = 0 then s
      else s\<lparr> step2Batches := map (\<lambda>b. if batch_status b = Failed
                                        then b\<lparr> batch_status := Pending, batch_error := None \<rparr>
                                        else b) (step2Batches s),
              step2Stats := (step2Stats s)\<lparr> failed := 0 \<rparr> \<rparr>)"

subsection \<open>Events\<close>

text \<open>
  Everything that changes the state: the user's commands, the effects React runs after a
  render, the timer, and the settling of a suspended call. A call can only settle while it
  is suspended. JavaScript runs each of them to completion before the next, so a run of the
  hook is a sequence of events.
\<close>

datatype Event =
    InitializeStart
  | InitializeDecoded real
  | AutoRun
  | ChunkSettles string ChunkOutcome
  | Tick
  | RetryChunk string
  | RetryAllFailed
  | ClearCooldownNow
  | Reset
  | TriggerStep2 "ImprovedTranscriptItem list"
  | ProcessQueue
  | BatchSettles string "JsError + PostEditResult"
  | MergeEffect
  | RetryStep2Batch string
  | RetryAllFailedStep2

fun step :: "(ImprovedTranscriptItem \<Rightarrow> nat) \<Rightarrow> Event \<Rightarrow> HookState \<Rightarrow> HookState" where
  "step jsonLength InitializeStart s = initializeStart s"
| "step jsonLength (InitializeDecoded durationSec) s = initializeDecoded durationSec s"
| "step jsonLength AutoRun s = autoRun s"
| "step jsonLength (ChunkSettles chunkId outcome) s =
     (if chunkId \<in> set (inFlight s)
      then processChunkSettle chunkId outcome (s\<lparr> inFlight := remove1 chunkId (inFlight s) \<rparr>)
      else s)"
| "step jsonLength Tick s =
     s\<lparr> stats := tickStats (stats s), step2Stats := tickStats (step2Stats s) \<rparr>"
| "step jsonLength (RetryChunk chunkId) s = retryChunk chunkId s"
| "step jsonLength RetryAllFailed s = retryAllFailed s"
| "step jsonLength ClearCooldownNow s = clearCooldownNow s"
| "step jsonLength Reset s = reset s"
| "step jsonLength (TriggerStep2 mergedTranscript) s =
     performStep2Finalization jsonLength mergedTranscript s"
| "step jsonLength ProcessQueue s = processQueueStart s"
| "step jsonLength (BatchSettles batchId settled) s =
     (if batchId \<in> set (step2InFlight s)
      then processQueueSettle batchId settled
             (s\<lparr> step2InFlight := remove1 batchId (step2InFlight s) \<rparr>)
      else s)"
| "step jsonLength MergeEffect s = mergeEffect s"
| "step jsonLength (RetryStep2Batch batchId) s = retryStep2Batch batchId s"
| "step jsonLength RetryAllFailedStep2 s = retryAllFailedStep2 s"

text \<open>The state after a sequence of events, oldest first.\<close>

definition runEvents ::
  "(ImprovedTranscriptItem \<Rightarrow> nat) \<Rightarrow> Event list \<Rightarrow> HookState \<Rightarrow> HookState"
where
  "runEvents jsonLength events s = fold (step jsonLength) events s"

text \<open>The number of chunks, and of batches, whose status is \<open>processing\<close>.\<close>

definition processingChunks :: "HookState \<Rightarrow> nat" where
  "processingChunks s = length (filter (\<lambda>c. status c = Processing) (chunks s))"


text \<open>
  An event that belongs to the current run of stage 1: anything but \<^verbatim>\<open>reset\<close> and
  \<^verbatim>\<open>initializeChunks\<close>, which start another one.
\<close>

fun withinRun :: "Event \<Rightarrow> bool" where
  "withinRun InitializeStart = False"
| "withinRun (InitializeDecoded durationSec) = False"
| "withinRun Reset = False"
| "withinRun ev = True"

text \<open>
  The state in which a run of stage 1 starts: \<^verbatim>\<open>initializeChunks\<close> has run to its end on
  a file of the given duration, from the first render.
\<close>

definition freshRun :: "bool \<Rightarrow> real \<Rightarrow> HookState" where
  "freshRun key durationSec =
     initializeDecoded durationSec (initializeStart (initialState key))"

text \<open>
  A rate-limit failure of a chunk: the error takes the \<^verbatim>\<open>else if (isRateLimit)\<close> branch
  of \<^verbatim>\<open>processChunk\<close>'s \<^verbatim>\<open>catch\<close> block.
\<close>

definition rateLimitFailure :: "JsError \<Rightarrow> bool" where
  "rateLimitFailure e =
     (isRateLimit (errorMsg e) \<and>
      \<not> (includes_str (errorMsg e) ''API key not valid'' \<or>
         includes_str (errorMsg e) ''API_KEY_INVALID''))"

text \<open>The batches that carry a given id.\<close>

definition batchesWithId :: "string \<Rightarrow> HookState \<Rightarrow> Batch list" where
  "batchesWithId batchId s = filter (\<lambda>b. batch_id b = batchId) (step2Batches s)"

section \<open>Boundary-Fingerprint Merger: the merge monitor of stage 1\<close>

text \<open>
  \<^verbatim>\<open>normalizeTextForDedupe\<close> of \<^verbatim>\<open>src/utils/audioUtils.ts\<close>. The characters the first
  \<^verbatim>\<open>replace\<close> removes are those of the class
  \<^verbatim>\<open>[.,\/#!$%\^&\*;:{}=\-_`~()\[\]]\<close>. The case mapping of \<^verbatim>\<open>toLowerCase\<close> is a
  table of the language and is taken as the parameter \<open>lower\<close>; on ASCII it is
  \<^const>\<open>toLowerCase\<close>. An absent or empty text gives the empty string.
\<close>

definition punctuation :: string where
  "punctuation = ''.,/#!$%^&*;:{}=-_'' @ [CHR 0x60] @ ''~()[]''"

definition normalizeTextForDedupe :: "(string \<Rightarrow> string) \<Rightarrow> string option \<Rightarrow> string" where
  "normalizeTextForDedupe lower text =
     (if \<not> truthy text then []
      else trim (collapseUnits (units (filter (\<lambda>c. c \<notin> set punctuation) (lower (the text))))))"

text \<open>
  \<^verbatim>\<open>chunks.filter(c => c.status === 'completed' && c.content)\<close>, sorted by index. An
  empty \<^verbatim>\<open>content\<close> string is falsy like an absent one; both are \<open>None\<close>.
  \<^verbatim>\<open>Array.prototype.sort\<close> is stable, as is \<^const>\<open>sort_key\<close>.
\<close>

definition completedChunks :: "Chunk list \<Rightarrow> Chunk list" where
  "completedChunks cs = filter (\<lambda>c. status c = Completed \<and> content c \<noteq> None) cs"

definition sortedCompleted :: "Chunk list \<Rightarrow> Chunk list" where
  "sortedCompleted cs = sort_key chunk_index (completedChunks cs)"

text \<open>
  The two nested loops over \<^verbatim>\<open>firstItems\<close> and \<^verbatim>\<open>lastItems\<close>: the first position
  \<open>i\<close> of \<^verbatim>\<open>firstItems\<close> whose normalized text equals that of some item of
  \<^verbatim>\<open>lastItems\<close>; \<open>None\<close> stands for \<^verbatim>\<open>-1\<close>.
\<close>

definition overlapIndex ::
  "(string \<Rightarrow> string) \<Rightarrow> ImprovedTranscriptItem list \<Rightarrow> ImprovedTranscriptItem list
     \<Rightarrow> nat option"
where
  "overlapIndex lower lastItems firstItems =
     find (\<lambda>i. list_ex (\<lambda>l. normalizeTextForDedupe lower (edited (firstItems ! i))
                              = normalizeTextForDedupe lower (edited l)) lastItems)
          [0..<length firstItems]"

text \<open>
  One round of \<^verbatim>\<open>sortedCompleted.forEach\<close>, on the pair of \<^verbatim>\<open>mergedTranscript\<close> and
  \<^verbatim>\<open>lastChunkTranscript\<close>. When \<^verbatim>\<open>JSON.parse\<close> throws, the \<^verbatim>\<open>catch\<close> leaves both
  as they are.
\<close>

definition mergeChunk ::
  "(string \<Rightarrow> string) \<Rightarrow> Chunk
     \<Rightarrow> ImprovedTranscriptItem list \<times> ImprovedTranscriptItem list
     \<Rightarrow> ImprovedTranscriptItem list \<times> ImprovedTranscriptItem list"
where
  "mergeChunk lower chunk state =
     (case state of (mergedTranscript, lastChunkTranscript) \<Rightarrow>
      case content chunk of
        Some (Parsed improved_transcript) \<Rightarrow>
          (let parsedTranscript = (case improved_transcript of Some t \<Rightarrow> t | None \<Rightarrow> []);
               currentChunkTranscript =
                 (if length lastChunkTranscript > 0 \<and> length parsedTranscript > 0 then
                    (let lastItems = drop (length lastChunkTranscript - 2) lastChunkTranscript;
                         firstItems = take 2 parsedTranscript
                     in case overlapIndex lower lastItems firstItems of
                          Some i \<Rightarrow> drop (i + 1) parsedTranscript
                        | None \<Rightarrow> parsedTranscript)
                  else parsedTranscript)
           in (mergedTranscript @ currentChunkTranscript, parsedTranscript))
      | _ \<Rightarrow> (mergedTranscript, lastChunkTranscript))"

definition mergeMonitor :: "(string \<Rightarrow> string) \<Rightarrow> Chunk list \<Rightarrow> ImprovedTranscriptItem list" where
  "mergeMonitor lower cs = fst (fold (mergeChunk lower) (sortedCompleted cs) ([], []))"

section \<open>Invariants of a run\<close>

text \<open>
  What holds throughout a run of stage 1: chunk ids are distinct; every chunk whose status
  is \<open>processing\<close> has a suspended \<^verbatim>\<open>processChunk\<close> call; the counter
  \<^verbatim>\<open>stats.processing\<close> is the number of suspended calls and is at most 5; and
  \<^verbatim>\<open>maxConcurrency\<close> is 5 or 1.
\<close>

definition stage1Inv :: "HookState \<Rightarrow> bool" where
  "stage1Inv s =
     (distinct (map chunk_id (chunks s)) \<and>
      (\<forall>c \<in> set (chunks s). status c = Processing \<longrightarrow> chunk_id c \<in> set (inFlight s)) \<and>
      processing (stats s) = int (length (inFlight s)) \<and>
      processing (stats s) \<le> 5 \<and>
      maxConcurrency s \<in> {1, 5})"

text \<open>
  What holds of a stage's cooldown at all times: the remaining time lies between 0 and 60,
  and it is positive while the cooldown is active.
\<close>

definition cooldownInv :: "ProcessingStats \<Rightarrow> bool" where
  "cooldownInv st =
     (0 \<le> cooldownSeconds st \<and> cooldownSeconds st \<le> 60 \<and>
      (isCoolingDown st \<longrightarrow> 0 < cooldownSeconds st))"


section \<open>Sample data\<close>

text \<open>Two per-batch results as the second stage returns them, used to run the merger.\<close>

definition sampleResultA :: PostEditResult where
  "sampleResultA =
     \<lparr> mode = ''POST_EDIT_LECTURE_SCRIPT_RESULT'',
       refined_script =
         [\<lparr> rs_speaker = ''[GV]'', start_timestamp = ''[00:00]'', end_timestamp = ''[00:05]'',
            rs_text = ''first'', source_timestamps = [''[00:00]''], needs_review = Some False \<rparr>],
       removal_report = \<lparr> removed_from_main = [], removal_summary = ''none'' \<rparr>,
       qa_audit = \<lparr> gv_coverage_attestation = True, gv_items_total = 3,
                    gv_items_used_in_main = 3, uncertain_items_count = 1,
                    risk_flags = [''many_uncertain''], qa_notes = ''a'' \<rparr> \<rparr>"

definition sampleResultB :: PostEditResult where
  "sampleResultB =
     \<lparr> mode = ''POST_EDIT_LECTURE_SCRIPT_RESULT'',
       refined_script =
         [\<lparr> rs_speaker = ''[SV]'', start_timestamp = ''[00:06]'', end_timestamp = ''[00:09]'',
            rs_text = ''second'', source_timestamps = [''[00:06]''], needs_review = Some True \<rparr>],
       removal_report =
         \<lparr> removed_from_main =
             [\<lparr> rm_timestamp = ''[00:10]'', rm_speaker = ''[HC]'', rm_reason = ''administrative'',
                verbatim_excerpt = ''roll call'' \<rparr>],
           removal_summary = ''one'' \<rparr>,
       qa_audit = \<lparr> gv_coverage_attestation = False, gv_items_total = 2,
                    gv_items_used_in_main = 1, uncertain_items_count = 0,
                    risk_flags = [''many_uncertain'', ''speaker_uncertain_cluster''],
                    qa_notes = ''b'' \<rparr> \<rparr>"

text \<open>
  Three input items of the second stage: one with an edited text in need of trimming, one
  whose edited text is empty and whose original text is kept, one with no text at all.
\<close>

definition sampleItems :: "ImprovedTranscriptItem list" where
  "sampleItems =
     [\<lparr> timestamp = Some ''[00:01]'', original = None, edited = Some ''  hello '',
        uncertain = Some False, chitchat = Some False, speaker = Some ''[GV]'' \<rparr>,
      \<lparr> timestamp = Some ''[00:02]'', original = Some ''raw'', edited = Some [],
        uncertain = Some True, chitchat = None, speaker = None \<rparr>,
      \<lparr> timestamp = None, original = None, edited = Some [],
        uncertain = None, chitchat = None, speaker = Some ''[SV]'' \<rparr>]"

text \<open>A service whose every answer fails to parse, and a rate-limit error of the API.\<close>

definition alwaysInvalidJSON :: "bool list \<Rightarrow> nat \<Rightarrow> ApiOutcome" where
  "alwaysInvalidJSON path i = InvalidJSON ''Unexpected token''"

definition error429 :: JsError where
  "error429 = JsError ''ApiError'' ''got status: 429 Too Many Requests. RESOURCE_EXHAUSTED''"

text \<open>
  A service that answers the first call of the whole unit with unparsable text three times
  and rejects every call for a half with the rate-limit error.
\<close>

definition halvesRateLimited :: "bool list \<Rightarrow> nat \<Rightarrow> ApiOutcome" where
  "halvesRateLimited path i = (if path = [] then InvalidJSON ''Unexpected token'' else Rejects error429)"

text \<open>
  Two services that fail the first call of a unit and would answer the second one well:
  the first by not answering in time, the second with text that does not parse.
\<close>

definition timesOutOnce :: "bool list \<Rightarrow> nat \<Rightarrow> ApiOutcome" where
  "timesOutOnce path i = (if i = 0 then TimesOut else Parses sampleResultA)"

definition invalidJSONOnce :: "bool list \<Rightarrow> nat \<Rightarrow> ApiOutcome" where
  "invalidJSONOnce path i = (if i = 0 then InvalidJSON ''Unexpected token'' else Parses sampleResultA)"

text \<open>
  A run of stage 1 on a recording of 185 time units (four chunks): three chunks are
  launched, then the call for the first one fails with the rate-limit error.
\<close>

definition rateLimitedRun :: "Event list" where
  "rateLimitedRun = [AutoRun, AutoRun, AutoRun, ChunkSettles ''chunk-0'' (ChunkThrows error429)]"

text \<open>
  The same run goes on: the timer ticks three times, then the call for the second chunk
  fails with the rate-limit error as well.
\<close>

definition secondSignalRun :: "Event list" where
  "secondSignalRun =
     rateLimitedRun @ [Tick, Tick, Tick, ChunkSettles ''chunk-1'' (ChunkThrows error429)]"

text \<open>
  A start of stage 2 on the three sample items, each of them so large when serialised that
  it gets a batch of its own: the queue effect runs twice before the first batch settles.
\<close>

definition stage2Start :: "Event list" where
  "stage2Start = [TriggerStep2 sampleItems, ProcessQueue, ProcessQueue]"

text \<open>
  The run \<open>stage2Start\<close> goes on: the call for the first batch settles, the service having
  answered every attempt with text that does not parse.
\<close>

definition firstBatchSettled :: "JsError + PostEditResult" where
  "firstBatchSettled =
     runStep2Robust alwaysInvalidJSON
       (batch_items (hd (step2Batches
          (runEvents (\<lambda>item. 50000) stage2Start (initialState True))))) []"

definition fallbackRun :: "Event list" where
  "fallbackRun = stage2Start @ [BatchSettles ''batch-0'' firstBatchSettled]"

text \<open>A unit of 41 items, one more than the engine leaves unsplit.\<close>

definition fortyOneItems :: "ImprovedTranscriptItem list" where
  "fortyOneItems = replicate 41 (hd sampleItems)"

text \<open>
  A rate-limit error of the API whose message also holds the digits \<open>500\<close>, and a service
  that rejects every call with it.
\<close>

definition error429Limit :: JsError where
  "error429Limit =
     JsError ''ApiError'' ''got status: 429 Too Many Requests. Limit of 1500 requests per day reached''"

definition alwaysRateLimited :: "bool list \<Rightarrow> nat \<Rightarrow> ApiOutcome" where
  "alwaysRateLimited path i = Rejects error429Limit"

text \<open>
  The run \<open>rateLimitedRun\<close> goes on: the calls for the two other chunks in flight succeed.
  Then the timer ticks sixty times.
\<close>

definition othersSettledRun :: "Event list" where
  "othersSettledRun =
     rateLimitedRun
       @ [ChunkSettles ''chunk-1'' (ChunkSucceeds Unparsable),
          ChunkSettles ''chunk-2'' (ChunkSucceeds Unparsable)]"

definition cooledDownRun :: "Event list" where
  "cooledDownRun = othersSettledRun @ replicate 60 Tick"

text \<open>
  Two runs of stage 1, the second started while calls of the first are outstanding. The
  first run, on a recording of 420 time units (seven chunks), launches five chunks, sees
  two of them succeed and launches the last two. Then \<^verbatim>\<open>initializeChunks\<close> runs on a
  recording of 360 time units (six chunks); five chunks are launched, the call of the first
  run for its seventh chunk succeeds, and the scan launches once more.
\<close>

definition staleCallRun :: "Event list" where
  "staleCallRun =
     [InitializeStart, InitializeDecoded 420]
       @ replicate 5 AutoRun
       @ [ChunkSettles ''chunk-0'' (ChunkSucceeds Unparsable),
          ChunkSettles ''chunk-1'' (ChunkSucceeds Unparsable), AutoRun, AutoRun,
          InitializeStart, InitializeDecoded 360]
       @ replicate 5 AutoRun
       @ [ChunkSettles ''chunk-6'' (ChunkSucceeds Unparsable), AutoRun]"

text \<open>
  Two adjacent completed windows. The first two items of the second window repeat the last
  two items of the first one, up to letter case, punctuation and spacing.
\<close>

definition spoken :: "string \<Rightarrow> ImprovedTranscriptItem" where
  "spoken t =
     \<lparr> timestamp = None, original = None, edited = Some t,
       uncertain = None, chitchat = None, speaker = None \<rparr>"

definition completedChunk :: "nat \<Rightarrow> ImprovedTranscriptItem list \<Rightarrow> Chunk" where
  "completedChunk i items =
     \<lparr> chunk_id = ''chunk-'' @ natToString i, chunk_index = i, status = Completed,
       content = Some (Parsed (Some items)), startSec = 0, endSec = 0, chunk_error = None \<rparr>"

definition overlappingChunks :: "Chunk list" where
  "overlappingChunks =
     [completedChunk 0 [spoken ''Opening'', spoken ''Hello, world.'', spoken ''Second line''],
      completedChunk 1 [spoken ''hello world'', spoken ''second   line!'', spoken ''Third'']]"

text \<open>Two windows whose boundary items share no text, and two that share one item.\<close>

definition disjointChunks :: "Chunk list" where
  "disjointChunks =
     [completedChunk 0 [spoken ''Opening'', spoken ''Hello, world.''],
      completedChunk 1 [spoken ''Second line'', spoken ''Third'']]"

definition oneSharedChunks :: "Chunk list" where
  "oneSharedChunks =
     [completedChunk 0 [spoken ''Opening'', spoken ''Hello, world.''],
      completedChunk 1 [spoken ''HELLO WORLD'', spoken ''Second line'', spoken ''Third'']]"

chapter \<open>Verification of the claims\<close>

section \<open>Decimal rendering is injective\<close>

lemma digit_inj:
  assumes "a < 10" "b < 10" "''0123456789'' ! a = ''0123456789'' ! b"
  shows "a = b"
proof -
  have d: "distinct ''0123456789''" by simp
  have "a < length ''0123456789''" "b < length ''0123456789''" using assms by simp_all
  with d assms(3) show ?thesis by (simp only: nth_eq_iff_index_eq)
qed

lemma natToString_nonempty: "natToString n \<noteq> []"
  by (subst natToString.simps) simp

lemma natToString_length_small: "n < 10 \<Longrightarrow> length (natToString n) = 1"
  by (subst natToString.simps) simp

lemma natToString_length_big: "10 \<le> n \<Longrightarrow> 2 \<le> length (natToString n)"
proof -
  assume "10 \<le> n"
  then have "natToString n = natToString (n div 10) @ [''0123456789'' ! (n mod 10)]"
    by (subst natToString.simps) simp
  moreover have "1 \<le> length (natToString (n div 10))"
    using natToString_nonempty[of "n div 10"] by (cases "natToString (n div 10)") auto
  ultimately show ?thesis by simp
qed

lemma natToString_inj: "natToString a = natToString b \<Longrightarrow> a = b"
proof (induction a arbitrary: b rule: less_induct)
  case (less a)
  show ?case
  proof (cases "a < 10")
    case True
    then have la: "length (natToString a) = 1" by (rule natToString_length_small)
    have "b < 10"
    proof (rule ccontr)
      assume "\<not> b < 10"
      then have "2 \<le> length (natToString b)" using natToString_length_big by simp
      with la less.prems show False by simp
    qed
    moreover have "natToString a = [''0123456789'' ! a]" using True
      by (subst natToString.simps) simp
    moreover have "natToString b = [''0123456789'' ! b]" using \<open>b < 10\<close>
      by (subst natToString.simps) simp
    ultimately show ?thesis using less.prems True digit_inj by simp
  next
    case False
    then have a10: "10 \<le> a" by simp
    have b10: "10 \<le> b"
    proof (rule ccontr)
      assume "\<not> 10 \<le> b"
      then have "length (natToString b) = 1" using natToString_length_small by simp
      moreover have "2 \<le> length (natToString a)" using a10 by (rule natToString_length_big)
      ultimately show False using less.prems by simp
    qed
    have ea: "natToString a = natToString (a div 10) @ [''0123456789'' ! (a mod 10)]"
      using a10 by (subst natToString.simps) simp
    have eb: "natToString b = natToString (b div 10) @ [''0123456789'' ! (b mod 10)]"
      using b10 by (subst natToString.simps) simp
    from less.prems ea eb have q: "natToString (a div 10) = natToString (b div 10)"
      and r: "''0123456789'' ! (a mod 10) = ''0123456789'' ! (b mod 10)" by simp_all
    have "a div 10 < a" using a10 by simp
    from less.IH[OF this q] have "a div 10 = b div 10" .
    moreover have "a mod 10 = b mod 10" using r digit_inj[of "a mod 10" "b mod 10"] by simp
    ultimately show ?thesis by (metis div_mult_mod_eq)
  qed
qed

section \<open>Segmenter\<close>

lemma shrinkChunkSeconds_target: "shrinkChunkSeconds TARGET_CHUNK_SECONDS = 60"
  by (simp add: shrinkChunkSeconds.simps TARGET_CHUNK_SECONDS_def estimateWavBytes_def MAX_INLINE_DATA_BYTES_def)

lemma length_newChunks: "length (newChunks D C) = nat \<lceil>D / C\<rceil>"
  by (simp add: newChunks_def)

lemma newChunks_nth:
  assumes "i < length (newChunks D C)"
  shows "startSec (newChunks D C ! i) = (if i = 0 then 0 else max 0 (real i * C - 3))"
    and "endSec (newChunks D C ! i) = min D (real (i + 1) * C)"
    and "chunk_index (newChunks D C ! i) = i"
  using assms by (simp_all add: newChunks_def OVERLAP_SECONDS_def)

lemma newChunks_last_end:
  assumes "0 < C" "newChunks D C \<noteq> []"
  shows "endSec (last (newChunks D C)) = D"
proof -
  let ?n = "nat \<lceil>D / C\<rceil>"
  have n: "0 < ?n" using assms(2) by (simp add: newChunks_def)
  have len: "length (newChunks D C) = ?n" by (rule length_newChunks)
  have "last (newChunks D C) = newChunks D C ! (?n - 1)"
    using assms(2) len by (simp add: last_conv_nth)
  moreover have "?n - 1 < length (newChunks D C)" using n len by simp
  ultimately have e: "endSec (last (newChunks D C)) = min D (real (?n - 1 + 1) * C)"
    using newChunks_nth(2) by simp
  have "D / C \<le> real ?n" using n by linarith
  then have "D \<le> real ?n * C" using assms(1) by (simp add: pos_divide_le_eq)
  then show ?thesis using e n by simp
qed

lemma initialChunks_185: "map window (initialChunks 185) = [(0, 60), (57, 120), (117, 180), (177, 185)]"
  by (simp add: initialChunks_def shrinkChunkSeconds_target newChunks_def window_def upt_rec OVERLAP_SECONDS_def)

lemma distinct_initialChunk_ids: "distinct (map chunk_id (newChunks D C))"
proof -
  have "map chunk_id (newChunks D C) = map (\<lambda>i. ''chunk-'' @ natToString i) [0..<nat \<lceil>D / C\<rceil>]"
    by (simp add: newChunks_def Let_def comp_def)
  moreover have "inj (\<lambda>i. ''chunk-'' @ natToString i)"
    by (rule injI) (simp, erule natToString_inj)
  then have "inj_on (\<lambda>i. ''chunk-'' @ natToString i) (set [0..<nat \<lceil>D / C\<rceil>])"
    by (rule inj_on_subset) simp
  ultimately show ?thesis by (simp add: distinct_map)
qed

text \<open>
  Claim C8. For every total duration \<open>D\<close> and every positive chunk length \<open>C\<close>, with the
  overlap of 3: the Segmenter produces \<open>ceil(D / C)\<close> windows; window 0 starts at 0, every
  window \<open>i > 0\<close> starts at \<open>max(0, i * C - 3)\<close>, window \<open>i\<close> ends at
  \<open>min(D, (i + 1) * C)\<close>, and the last window ends at \<open>D\<close> exactly. The chunk length
  \<^verbatim>\<open>initializeChunks\<close> arrives at is 60, and a recording of 185 time units gets the
  windows [0,60], [57,120], [117,180], [177,185].
\<close>

theorem segmenter_windows:
  assumes "0 < C"
  shows "length (newChunks D C) = nat \<lceil>D / C\<rceil> \<and>
    (\<forall>i < length (newChunks D C).
       startSec (newChunks D C ! i) = (if i = 0 then 0 else max 0 (real i * C - 3)) \<and>
       endSec (newChunks D C ! i) = min D (real (i + 1) * C)) \<and>
    (newChunks D C \<noteq> [] \<longrightarrow> endSec (last (newChunks D C)) = D) \<and>
    shrinkChunkSeconds TARGET_CHUNK_SECONDS = 60 \<and>
    map window (initialChunks 185) = [(0, 60), (57, 120), (117, 180), (177, 185)]"
  using assms newChunks_last_end[OF assms, of D]
  by (simp add: length_newChunks newChunks_nth shrinkChunkSeconds_target initialChunks_185
      del: of_nat_Suc)

theorem segmenter_windows_witness:
  "(0::real) < 60 \<and> length (newChunks 185 60) = 4 \<and>
   startSec (newChunks 185 60 ! 0) = 0 \<and> startSec (newChunks 185 60 ! 1) = 57 \<and>
   endSec (newChunks 185 60 ! 2) = 180 \<and> endSec (last (newChunks 185 60)) = 185"
proof -
  have p: "(0::real) < 60" by simp
  have l: "length (newChunks 185 60) = 4" by (simp add: length_newChunks)
  have ne: "newChunks 185 60 \<noteq> []" using l by auto
  show ?thesis
    using segmenter_windows[OF p, of 185] l ne by simp
qed

section \<open>Batch Planner: partition and greedy boundaries\<close>

lemma batchLoop_concat:
  "concat (batchLoop sz T M items batches cur cnt) = concat batches @ cur @ items"
  by (induction items arbitrary: batches cur cnt) (auto simp: Let_def)

lemma batchLoop_nonempty:
  "[] \<notin> set batches \<Longrightarrow> [] \<notin> set (batchLoop sz T M items batches cur cnt)"
proof (induction items arbitrary: batches cur cnt)
  case Nil
  then show ?case by simp
next
  case (Cons item rest)
  show ?case
  proof (cases "length cur > 0 \<and> (cnt + sz item > T \<or> length cur \<ge> M)")
    case True
    then have "[] \<notin> set (batches @ [cur])" using Cons.prems by auto
    from Cons.IH[OF this] True show ?thesis by (auto simp: Let_def)
  next
    case False
    from Cons.IH[OF Cons.prems] False show ?thesis by (auto simp: Let_def)
  qed
qed

lemma noEarlierBoundary_single: "noEarlierBoundary sz T M [x]"
  by (simp add: noEarlierBoundary_def)

lemma noEarlierBoundary_snoc:
  assumes "noEarlierBoundary sz T M cur" "\<not> boundaryDue sz T M cur x"
  shows "noEarlierBoundary sz T M (cur @ [x])"
  unfolding noEarlierBoundary_def
proof
  fix n assume n: "n \<in> {1..<length (cur @ [x])}"
  show "\<not> boundaryDue sz T M (take n (cur @ [x])) ((cur @ [x]) ! n)"
  proof (cases "n < length cur")
    case True
    then show ?thesis using assms(1) n by (auto simp: noEarlierBoundary_def nth_append)
  next
    case False
    then have "n = length cur" using n by auto
    then show ?thesis using assms(2) by simp
  qed
qed

lemma greedyBatches_snoc_grow:
  assumes "greedyBatches sz T M (bs @ [cur])" "cur \<noteq> []"
    "\<not> boundaryDue sz T M cur x"
  shows "greedyBatches sz T M (bs @ [cur @ [x]])"
  using assms
proof (induction bs rule: greedyBatches.induct[of _ sz T M])
  case 1
  then show ?case by (simp add: noEarlierBoundary_snoc)
next
  case (2 b)
  then show ?case by (simp add: noEarlierBoundary_snoc)
next
  case (3 b c bs)
  then show ?case by simp
qed

lemma greedyBatches_snoc_new:
  assumes "greedyBatches sz T M (bs @ [cur])" "boundaryDue sz T M cur x"
  shows "greedyBatches sz T M ((bs @ [cur]) @ [[x]])"
  using assms
proof (induction bs rule: greedyBatches.induct[of _ sz T M])
  case 1
  then show ?case by (simp add: noEarlierBoundary_single)
next
  case (2 b)
  then show ?case by (simp add: noEarlierBoundary_single)
next
  case (3 b c bs)
  then show ?case by simp
qed

text \<open>
  The loop invariant: the closed batches followed by the open one are greedy, the open
  batch is non-empty and \<^verbatim>\<open>currentCharCount\<close> is its serialised size.
\<close>

lemma batchLoop_greedy:
  assumes "greedyBatches sz T M (batches @ [cur])" "cur \<noteq> []" "cnt = charCount sz cur"
  shows "greedyBatches sz T M (batchLoop sz T M items batches cur cnt)"
  using assms
proof (induction items arbitrary: batches cur cnt)
  case Nil
  then show ?case by simp
next
  case (Cons item rest)
  show ?case
  proof (cases "boundaryDue sz T M cur item")
    case True
    have "greedyBatches sz T M ((batches @ [cur]) @ [[item]])"
      using greedyBatches_snoc_new[OF Cons.prems(1) True] .
    from Cons.IH[OF this, of "sz item"] True Cons.prems(2,3)
    show ?thesis by (simp add: Let_def boundaryDue_def charCount_def)
  next
    case False
    have "greedyBatches sz T M (batches @ [cur @ [item]])"
      using greedyBatches_snoc_grow[OF Cons.prems(1,2) False] .
    from Cons.IH[OF this, of "cnt + sz item"] False Cons.prems(2,3)
    show ?thesis by (simp add: Let_def boundaryDue_def charCount_def)
  qed
qed

lemma buildBatches_concat:
  "concat (buildBatchesByCharOrCount sz items T M) = items"
  by (simp add: buildBatchesByCharOrCount_def batchLoop_concat)

lemma buildBatches_nonempty:
  "[] \<notin> set (buildBatchesByCharOrCount sz items T M)"
  by (simp add: buildBatchesByCharOrCount_def batchLoop_nonempty)

lemma buildBatches_greedy:
  "greedyBatches sz T M (buildBatchesByCharOrCount sz items T M)"
proof (cases items)
  case Nil
  then show ?thesis by (simp add: buildBatchesByCharOrCount_def)
next
  case (Cons item rest)
  have "greedyBatches sz T M ([] @ [[item]])" by (simp add: noEarlierBoundary_single)
  from batchLoop_greedy[OF this, of "sz item" rest] Cons
  show ?thesis by (simp add: buildBatchesByCharOrCount_def charCount_def)
qed

text \<open>
  Claim C4. For every item sequence, every size function, every character budget and
  every maximum item count: the batches concatenated in order are exactly the input
  (nothing dropped, duplicated or reordered); every batch holds at least one item; a single
  item larger than the budget still gets a batch of its own; and batch boundaries are
  exactly the places where the planner's test holds: between two neighbouring batches,
  adding the first item of the second to the first would exceed the budget or the first
  already holds \<open>maxItems\<close> items, and inside a batch that was never the case.
\<close>

theorem buildBatches_exact_partition:
  "concat (buildBatchesByCharOrCount sz items T M) = items \<and>
   (\<forall>b \<in> set (buildBatchesByCharOrCount sz items T M). 1 \<le> length b) \<and>
   (T < sz x \<longrightarrow> buildBatchesByCharOrCount sz [x] T M = [[x]]) \<and>
   greedyBatches sz T M (buildBatchesByCharOrCount sz items T M)"
proof -
  have "\<forall>b \<in> set (buildBatchesByCharOrCount sz items T M). 1 \<le> length b"
  proof
    fix b assume "b \<in> set (buildBatchesByCharOrCount sz items T M)"
    with buildBatches_nonempty[of sz items T M] have "b \<noteq> []" by auto
    then show "1 \<le> length b" by (cases b) auto
  qed
  moreover have "buildBatchesByCharOrCount sz [x] T M = [[x]]"
    by (simp add: buildBatchesByCharOrCount_def)
  ultimately show ?thesis
    using buildBatches_concat[of sz items T M] buildBatches_greedy[of sz T M items] by simp
qed

theorem buildBatches_exact_partition_witness:
  "buildBatchesByCharOrCount length [''aa'', ''bbb'', ''c'', ''dddddd'', ''e''] 4 2
     = [[''aa''], [''bbb'', ''c''], [''dddddd''], [''e'']] \<and>
   concat (buildBatchesByCharOrCount length [''aa'', ''bbb'', ''c'', ''dddddd'', ''e''] 4 2)
     = [''aa'', ''bbb'', ''c'', ''dddddd'', ''e''] \<and>
   (4::nat) < length ''dddddd'' \<and>
   buildBatchesByCharOrCount length [''dddddd''] 4 2 = [[''dddddd'']] \<and>
   greedyBatches length 4 2
     (buildBatchesByCharOrCount length [''aa'', ''bbb'', ''c'', ''dddddd'', ''e''] 4 2)"
  using buildBatches_exact_partition
    [of length "[''aa'', ''bbb'', ''c'', ''dddddd'', ''e'']" 4 2 "''dddddd''"]
  by (simp add: buildBatchesByCharOrCount_def)

section \<open>Result Merger\<close>

lemma newSet_fold_set:
  "set (fold (\<lambda>x seen. if x \<in> set seen then seen else seen @ [x]) xs seen0) = set seen0 \<union> set xs"
  by (induction xs arbitrary: seen0) auto

lemma newSet_fold_distinct:
  "distinct seen0 \<Longrightarrow> distinct (fold (\<lambda>x seen. if x \<in> set seen then seen else seen @ [x]) xs seen0)"
  by (induction xs arbitrary: seen0) auto

lemma set_newSet: "set (newSet xs) = set xs"
  by (simp add: newSet_def newSet_fold_set)

lemma distinct_newSet: "distinct (newSet xs)"
  by (simp add: newSet_def newSet_fold_distinct)

lemma reduceResults_refined_script:
  "refined_script (reduceResults i acc rs) = refined_script acc @ concat (map refined_script rs)"
  by (induction rs arbitrary: i acc) (simp_all add: mergeStep_def)

lemma reduceResults_removed:
  "removed_from_main (removal_report (reduceResults i acc rs)) =
     removed_from_main (removal_report acc) @ concat (map (\<lambda>r. removed_from_main (removal_report r)) rs)"
  by (induction rs arbitrary: i acc) (simp_all add: mergeStep_def)

lemma reduceResults_total:
  "gv_items_total (qa_audit (reduceResults i acc rs)) =
     gv_items_total (qa_audit acc) + sum_list (map (\<lambda>r. gv_items_total (qa_audit r)) rs)"
  by (induction rs arbitrary: i acc) (simp_all add: mergeStep_def)

lemma reduceResults_used:
  "gv_items_used_in_main (qa_audit (reduceResults i acc rs)) =
     gv_items_used_in_main (qa_audit acc) + sum_list (map (\<lambda>r. gv_items_used_in_main (qa_audit r)) rs)"
  by (induction rs arbitrary: i acc) (simp_all add: mergeStep_def)

lemma reduceResults_uncertain:
  "uncertain_items_count (qa_audit (reduceResults i acc rs)) =
     uncertain_items_count (qa_audit acc) + sum_list (map (\<lambda>r. uncertain_items_count (qa_audit r)) rs)"
  by (induction rs arbitrary: i acc) (simp_all add: mergeStep_def)

lemma reduceResults_attestation:
  "gv_coverage_attestation (qa_audit (reduceResults i acc rs)) =
     (gv_coverage_attestation (qa_audit acc) \<and> (\<forall>r \<in> set rs. gv_coverage_attestation (qa_audit r)))"
  by (induction rs arbitrary: i acc) (auto simp: mergeStep_def)

lemma reduceResults_flags_set:
  "set (risk_flags (qa_audit (reduceResults i acc rs))) =
     set (risk_flags (qa_audit acc)) \<union> (\<Union>r \<in> set rs. set (risk_flags (qa_audit r)))"
  by (induction rs arbitrary: i acc) (auto simp: mergeStep_def set_newSet)

lemma reduceResults_flags_distinct:
  "distinct (risk_flags (qa_audit acc)) \<Longrightarrow> distinct (risk_flags (qa_audit (reduceResults i acc rs)))"
  by (induction rs arbitrary: i acc) (auto simp: mergeStep_def distinct_newSet)

lemma reduceResults_mode:
  "rs \<noteq> [] \<Longrightarrow> mode (reduceResults i acc rs) = ''POST_EDIT_LECTURE_SCRIPT_RESULT_BATCHED''"
proof (induction rs arbitrary: i acc)
  case Nil then show ?case by simp
next
  case (Cons r rs)
  show ?case
  proof (cases rs)
    case Nil then show ?thesis by (simp add: mergeStep_def)
  next
    case more: (Cons r' rs')
    then show ?thesis using Cons.IH[of "i+1" "mergeStep acc r i"] by simp
  qed
qed

lemma length_concat_sum: "length (concat xss) = sum_list (map length xss)"
  by (induction xss) auto

text \<open>
  Claim C9, as the code has it. For every list of per-batch results the merged
  \<open>refined_script\<close> is the concatenation of the inputs' lists in batch order (so its length
  is the sum of their lengths), \<open>removed_from_main\<close> is the concatenation of theirs, and
  the three numeric counters are sums. For a non-empty list the attestation is the logical
  AND of the inputs' attestations and the risk flags are, as a set, the union of the inputs'
  flags. The rewriting of the mode tag to the BATCHED variant and the removal of duplicate
  flags happen for two results or more: a single result is returned as it is, and no result
  at all gives the fixed EMPTY result.
\<close>

theorem mergePostEditResults_aggregates:
  "refined_script (mergePostEditResults rs) = concat (map refined_script rs) \<and>
   length (refined_script (mergePostEditResults rs)) = sum_list (map (\<lambda>r. length (refined_script r)) rs) \<and>
   removed_from_main (removal_report (mergePostEditResults rs)) =
     concat (map (\<lambda>r. removed_from_main (removal_report r)) rs) \<and>
   gv_items_total (qa_audit (mergePostEditResults rs)) =
     sum_list (map (\<lambda>r. gv_items_total (qa_audit r)) rs) \<and>
   gv_items_used_in_main (qa_audit (mergePostEditResults rs)) =
     sum_list (map (\<lambda>r. gv_items_used_in_main (qa_audit r)) rs) \<and>
   uncertain_items_count (qa_audit (mergePostEditResults rs)) =
     sum_list (map (\<lambda>r. uncertain_items_count (qa_audit r)) rs) \<and>
   (rs \<noteq> [] \<longrightarrow>
      gv_coverage_attestation (qa_audit (mergePostEditResults rs)) =
        (\<forall>r \<in> set rs. gv_coverage_attestation (qa_audit r)) \<and>
      set (risk_flags (qa_audit (mergePostEditResults rs))) =
        (\<Union>r \<in> set rs. set (risk_flags (qa_audit r)))) \<and>
   (2 \<le> length rs \<longrightarrow>
      distinct (risk_flags (qa_audit (mergePostEditResults rs))) \<and>
      mode (mergePostEditResults rs) = ''POST_EDIT_LECTURE_SCRIPT_RESULT_BATCHED'') \<and>
   (length rs = 1 \<longrightarrow> mergePostEditResults rs = hd rs) \<and>
   (rs = [] \<longrightarrow> mergePostEditResults rs = emptyMergeResult)"
proof -
  consider (none) "rs = []" | (one) r where "rs = [r]" | (many) "2 \<le> length rs"
    by (cases rs rule: list.exhaust; cases "tl rs"; auto)
  then show ?thesis
  proof cases
    case none
    then show ?thesis by (simp add: mergePostEditResults_def emptyMergeResult_def)
  next
    case one
    then show ?thesis by (simp add: mergePostEditResults_def)
  next
    case many
    then have m: "mergePostEditResults rs = reduceResults 0 initialValue rs" and ne: "rs \<noteq> []"
      by (auto simp: mergePostEditResults_def)
    have "length (concat (map refined_script rs)) = sum_list (map (\<lambda>r. length (refined_script r)) rs)"
      by (simp add: length_concat_sum comp_def)
    then show ?thesis
      using many ne reduceResults_mode[OF ne, of 0 initialValue]
        reduceResults_flags_distinct[of initialValue 0 rs]
      unfolding m
      by (simp add: reduceResults_refined_script reduceResults_removed reduceResults_total
          reduceResults_used reduceResults_uncertain reduceResults_attestation
          reduceResults_flags_set initialValue_def)
  qed
qed

theorem mergePostEditResults_aggregates_witness:
  "mode (mergePostEditResults [sampleResultA, sampleResultB])
     = ''POST_EDIT_LECTURE_SCRIPT_RESULT_BATCHED'' \<and>
   map rs_text (refined_script (mergePostEditResults [sampleResultA, sampleResultB]))
     = [''first'', ''second''] \<and>
   length (removed_from_main (removal_report (mergePostEditResults [sampleResultA, sampleResultB]))) = 1 \<and>
   gv_items_total (qa_audit (mergePostEditResults [sampleResultA, sampleResultB])) = 5 \<and>
   gv_items_used_in_main (qa_audit (mergePostEditResults [sampleResultA, sampleResultB])) = 4 \<and>
   uncertain_items_count (qa_audit (mergePostEditResults [sampleResultA, sampleResultB])) = 1 \<and>
   gv_coverage_attestation (qa_audit (mergePostEditResults [sampleResultA, sampleResultB])) = False \<and>
   risk_flags (qa_audit (mergePostEditResults [sampleResultA, sampleResultB]))
     = [''many_uncertain'', ''speaker_uncertain_cluster''] \<and>
   mergePostEditResults [sampleResultA] = sampleResultA"
  using mergePostEditResults_aggregates[of "[sampleResultA, sampleResultB]"]
    mergePostEditResults_aggregates[of "[sampleResultA]"]
  by (simp add: mergePostEditResults_def mergeStep_def initialValue_def newSet_def
      sampleResultA_def sampleResultB_def)

text \<open>
  The claim as stated ("for every list ... rewrites the mode tag") fails for a list of one
  result, which is returned unchanged, and for the empty list, whose mode is EMPTY, whose
  attestation is false and whose flags are not the empty union.
\<close>

theorem mergePostEditResults_single_counterexample:
  "mode (mergePostEditResults [sampleResultA]) = ''POST_EDIT_LECTURE_SCRIPT_RESULT'' \<and>
   mode (mergePostEditResults [sampleResultA]) \<noteq> ''POST_EDIT_LECTURE_SCRIPT_RESULT_BATCHED'' \<and>
   mode (mergePostEditResults []) = ''EMPTY'' \<and>
   gv_coverage_attestation (qa_audit (mergePostEditResults [])) = False \<and>
   risk_flags (qa_audit (mergePostEditResults [])) = [''EMPTY_MERGE'']"
  by (simp add: mergePostEditResults_def sampleResultA_def emptyMergeResult_def)

section \<open>Robust Invocation Engine: the deterministic fallback\<close>

lemma orElse_best:
  "trim (orElse (edited item) (orElse (original item) [])) = bestAvailableText item"
  by (simp add: orElse_def bestAvailableText_def)

lemma fallback_texts:
  "map rs_text (refined_script (buildStep2Fallback items reason)) =
     filter (\<lambda>t. t \<noteq> []) (map bestAvailableText items)"
  by (simp add: buildStep2Fallback_def Let_def filter_map comp_def orElse_best)

lemma fallback_entries:
  "x \<in> set (refined_script (buildStep2Fallback items reason)) \<Longrightarrow>
     needs_review x = Some True \<and> rs_text x \<noteq> []"
  by (auto simp: buildStep2Fallback_def Let_def)

lemma fallback_fields:
  "risk_flags (qa_audit (buildStep2Fallback items reason)) = [''FALLBACK_USED'', reason]"
  "removed_from_main (removal_report (buildStep2Fallback items reason)) = []"
  "mode (buildStep2Fallback items reason) = ''POST_EDIT_LECTURE_SCRIPT_RESULT_FALLBACK''"
  by (simp_all add: buildStep2Fallback_def Let_def)

lemma fallback_absent_only_if_empty:
  assumes "item \<in> set items"
    "bestAvailableText item \<notin> set (map rs_text (refined_script (buildStep2Fallback items reason)))"
  shows "bestAvailableText item = []"
  using assms unfolding fallback_texts by auto

lemma unitFallsBack_gives_fallback:
  assumes "unitFallsBack api items path"
  shows "runStep2Robust api items path =
           Inr (buildStep2Fallback items
                  (if length items > STEP2_MIN_SPLIT_ITEMS \<and> length path < STEP2_MAX_SPLIT_DEPTH
                   then ''SPLIT_AND_RETRY_FAILED'' else ''MAX_RETRIES_AND_SPLITS_FAILED''))"
proof (cases "length items > STEP2_MIN_SPLIT_ITEMS \<and> length path < STEP2_MAX_SPLIT_DEPTH")
  case False
  then show ?thesis
    using assms
    by (subst runStep2Robust.simps) (auto simp: unitFallsBack_def Let_def)
next
  case True
  with assms have ex: "exit (retryLoop (api path) 0) = Exhausted"
    and h: "isl (runStep2Robust api (take (length items div 2) items) (path @ [False])) \<or>
            isl (runStep2Robust api (drop (length items div 2) items) (path @ [True]))"
    by (auto simp: unitFallsBack_def)
  show ?thesis
    using True ex h
    by (subst runStep2Robust.simps) (auto simp: Let_def isl_def split: sum.splits)
qed


section \<open>Robust Invocation Engine: the retry loop\<close>

lemma startsWith_append: "startsWith (p @ s) p"
  by (induction p) auto

lemma includes_str_prefix: "includes_str (p @ s) p"
  by (cases "p @ s") (auto simp: startsWith_append, metis startsWith_append)

lemma retryable_invalid_json: "retryable (JsError ''Error'' (''Invalid JSON: '' @ detail))"
proof -
  have "includes_str (''Invalid JSON'' @ ('': '' @ detail)) ''Invalid JSON''"
    by (rule includes_str_prefix)
  then show ?thesis by (simp add: retryable_def errorMsg_def Let_def)
qed

lemma retryable_empty_text:
  "retryable (JsError ''Error'' ''Internal error: Step 2 empty response text'')"
  by (simp add: retryable_def errorMsg_def Let_def isInternalError_def toLowerCase_def lowerChar_def)

lemma retryable_internal: "isInternalError (errorMsg e) \<Longrightarrow> retryable e"
  by (simp add: retryable_def Let_def)

lemma timeout_not_retryable: "\<not> retryable timeoutError"
  by (simp add: retryable_def errorMsg_def Let_def isInternalError_def toLowerCase_def
      lowerChar_def timeoutError_def isSyntaxError_def)

lemma error429_not_retryable: "\<not> retryable error429 \<and> isRateLimit (errorMsg error429)"
  by (simp add: retryable_def errorMsg_def Let_def isInternalError_def toLowerCase_def
      lowerChar_def error429_def isSyntaxError_def isRateLimit_def)

lemma retryLoop_end: "retryLoop attempt 3 = \<lparr> exit = Exhausted, calls = 0, sleeps = [] \<rparr>"
  by (subst retryLoop.simps) (simp add: STEP2_MAX_RETRIES_def)

text \<open>One iteration of the loop, for each way the call can end.\<close>

lemma retryLoop_throw:
  assumes "i < 3" "runStep2Once (attempt i) = Inl e" "\<not> retryable e"
  shows "retryLoop attempt i = \<lparr> exit = Thrown e, calls = 1, sleeps = [] \<rparr>"
  using assms by (subst retryLoop.simps) (simp add: STEP2_MAX_RETRIES_def Let_def)

lemma retryLoop_return:
  assumes "i < 3" "runStep2Once (attempt i) = Inr r"
  shows "retryLoop attempt i = \<lparr> exit = Returned r, calls = 1, sleeps = [] \<rparr>"
  using assms by (subst retryLoop.simps) (simp add: STEP2_MAX_RETRIES_def Let_def)

lemma retryLoop_retry0:
  assumes "retryableFailure (attempt 0)"
  shows "retryLoop attempt 0 =
     \<lparr> exit = exit (retryLoop attempt (Suc 0)), calls = 1 + calls (retryLoop attempt (Suc 0)),
       sleeps = 2000 # sleeps (retryLoop attempt (Suc 0)) \<rparr>"
  using assms
  by (subst retryLoop.simps)
     (auto simp: retryableFailure_def STEP2_MAX_RETRIES_def Let_def
           numeral_2_eq_2[symmetric] split: sum.splits)

lemma retryLoop_retry1:
  assumes "retryableFailure (attempt (Suc 0))"
  shows "retryLoop attempt (Suc 0) =
     \<lparr> exit = exit (retryLoop attempt 2), calls = 1 + calls (retryLoop attempt 2),
       sleeps = 6000 # sleeps (retryLoop attempt 2) \<rparr>"
  using assms
  by (subst retryLoop.simps)
     (auto simp: retryableFailure_def STEP2_MAX_RETRIES_def Let_def
           numeral_2_eq_2[symmetric] split: sum.splits)

lemma retryLoop_retry2:
  assumes "retryableFailure (attempt 2)"
  shows "retryLoop attempt 2 = \<lparr> exit = Exhausted, calls = 1, sleeps = [] \<rparr>"
  using assms retryLoop_end[of attempt]
  by (subst retryLoop.simps)
     (auto simp: retryableFailure_def STEP2_MAX_RETRIES_def Let_def
           numeral_2_eq_2[symmetric] split: sum.splits)

lemma retryLoop_exhausted:
  assumes "\<forall>i<3. retryableFailure (attempt i)"
  shows "retryLoop attempt 0 = \<lparr> exit = Exhausted, calls = 3, sleeps = [2000, 6000] \<rparr>"
proof -
  have a: "retryableFailure (attempt 0)" "retryableFailure (attempt 1)" "retryableFailure (attempt 2)"
    using assms by auto
  show ?thesis
    using a by (simp add: retryLoop_retry0[of attempt] retryLoop_retry1[of attempt]
        retryLoop_retry2[of attempt])
qed

lemma retryLoop_after_failures:
  assumes "k < 3" "\<forall>j<k. retryableFailure (attempt j)"
  shows "retryLoop attempt 0 =
     \<lparr> exit = exit (retryLoop attempt k), calls = k + calls (retryLoop attempt k),
       sleeps = take k [2000, 6000] @ sleeps (retryLoop attempt k) \<rparr>"
proof -
  consider "k = 0" | "k = 1" | "k = 2" using assms(1) by linarith
  then show ?thesis
  proof cases
    case 1 then show ?thesis by simp
  next
    case 2
    then have "retryableFailure (attempt 0)" using assms(2) by auto
    then show ?thesis using 2 by (simp add: retryLoop_retry0)
  next
    case 3
    then have a: "retryableFailure (attempt 0)" "retryableFailure (attempt 1)"
      using assms(2) by auto
    show ?thesis
      using 3 a by (simp add: retryLoop_retry0[of attempt] retryLoop_retry1[of attempt])
  qed
qed

lemma retryLoop_calls_le: "calls (retryLoop attempt i) \<le> 3 - i"
proof (induction "3 - i" arbitrary: i)
  case 0
  then show ?case by (subst retryLoop.simps) (simp add: STEP2_MAX_RETRIES_def)
next
  case (Suc n)
  then have "n = 3 - (i + 1)" "i < 3" by auto
  from Suc.hyps(1)[OF this(1)] this(2) show ?case
    by (subst retryLoop.simps) (auto simp: STEP2_MAX_RETRIES_def Let_def split: sum.splits)
qed

lemma runStep2Robust_rethrows:
  "exit (retryLoop (api path) 0) = Thrown e \<Longrightarrow> runStep2Robust api items path = Inl e"
  by (subst runStep2Robust.simps) (simp add: Let_def)

lemma runStep2Robust_returns:
  "exit (retryLoop (api path) 0) = Returned r \<Longrightarrow> runStep2Robust api items path = Inr r"
  by (subst runStep2Robust.simps) (simp add: Let_def)


section \<open>Robust Invocation Engine: retries and splits exhausted\<close>

lemma passesItemsThrough_fallback:
  "passesItemsThrough items (buildStep2Fallback items ''SPLIT_AND_RETRY_FAILED'')"
  "passesItemsThrough items (buildStep2Fallback items ''MAX_RETRIES_AND_SPLITS_FAILED'')"
  using fallback_entries
  by (auto simp: passesItemsThrough_def fallback_texts fallback_fields list_all_iff)

lemma merged_pair:
  "refined_script (mergePostEditResults [l, r]) = refined_script l @ refined_script r"
  "removed_from_main (removal_report (mergePostEditResults [l, r]))
     = removed_from_main (removal_report l) @ removed_from_main (removal_report r)"
  "set (risk_flags (qa_audit (mergePostEditResults [l, r])))
     = set (risk_flags (qa_audit l)) \<union> set (risk_flags (qa_audit r))"
  "mode (mergePostEditResults [l, r]) = ''POST_EDIT_LECTURE_SCRIPT_RESULT_BATCHED''"
proof -
  have m: "mergePostEditResults [l, r] = reduceResults 0 initialValue [l, r]"
    by (simp add: mergePostEditResults_def)
  show "refined_script (mergePostEditResults [l, r]) = refined_script l @ refined_script r"
    unfolding m reduceResults_refined_script by (simp add: initialValue_def)
  show "removed_from_main (removal_report (mergePostEditResults [l, r]))
     = removed_from_main (removal_report l) @ removed_from_main (removal_report r)"
    unfolding m reduceResults_removed by (simp add: initialValue_def)
  show "set (risk_flags (qa_audit (mergePostEditResults [l, r])))
     = set (risk_flags (qa_audit l)) \<union> set (risk_flags (qa_audit r))"
    unfolding m reduceResults_flags_set by (simp add: initialValue_def)
  show "mode (mergePostEditResults [l, r]) = ''POST_EDIT_LECTURE_SCRIPT_RESULT_BATCHED''"
    unfolding m by (simp add: mergeStep_def)
qed

lemma passesItemsThrough_merge:
  assumes "passesItemsThrough (take n items) l" "passesItemsThrough (drop n items) r"
  shows "passesItemsThrough items (mergePostEditResults [l, r])"
proof -
  have "filter (\<lambda>t. t \<noteq> []) (map bestAvailableText items)
      = filter (\<lambda>t. t \<noteq> []) (map bestAvailableText (take n items))
        @ filter (\<lambda>t. t \<noteq> []) (map bestAvailableText (drop n items))"
    by (simp only: filter_append[symmetric] map_append[symmetric] append_take_drop_id)
  then show ?thesis
    using assms by (auto simp: passesItemsThrough_def merged_pair)
qed

text \<open>
  The engine's result when retries and splits are exhausted, by induction along its own
  recursion.
\<close>

lemma exhausted_result:
  "exhaustsRetriesAndSplits api items path \<Longrightarrow>
     \<exists>r. runStep2Robust api items path = Inr r \<and> passesItemsThrough items r"
proof (induction api items path rule: runStep2Robust.induct)
  case (1 api items path)
  let ?mid = "length items div 2"
  let ?L = "runStep2Robust api (take ?mid items) (path @ [False])"
  let ?R = "runStep2Robust api (drop ?mid items) (path @ [True])"
  from "1.prems" have ex: "exit (retryLoop (api path) 0) = Exhausted"
    by (subst (asm) exhaustsRetriesAndSplits.simps) simp
  show ?case
  proof (cases "unitFallsBack api items path")
    case True
    show ?thesis
      using unitFallsBack_gives_fallback[OF True] passesItemsThrough_fallback[of items]
      by (cases "length items > STEP2_MIN_SPLIT_ITEMS \<and> length path < STEP2_MAX_SPLIT_DEPTH") auto
  next
    case False
    with ex have sp: "length items > STEP2_MIN_SPLIT_ITEMS \<and> length path < STEP2_MAX_SPLIT_DEPTH"
      and nl: "\<not> isl ?L" and nr: "\<not> isl ?R"
      by (auto simp: unitFallsBack_def split: if_splits)
    with "1.prems" have eL: "exhaustsRetriesAndSplits api (take ?mid items) (path @ [False])"
      and eR: "exhaustsRetriesAndSplits api (drop ?mid items) (path @ [True])"
      by (subst (asm) exhaustsRetriesAndSplits.simps, simp)+
    have d: "length path = length path" "?mid = ?mid" by simp_all
    from "1.IH"(1)[OF d(1) ex sp d(2) eL]
    obtain l where l: "?L = Inr l" "passesItemsThrough (take ?mid items) l" by blast
    from "1.IH"(2)[OF d(1) ex sp d(2) _ eR]
    obtain r where r: "?R = Inr r" "passesItemsThrough (drop ?mid items) r" by blast
    have "runStep2Robust api items path = Inr (mergePostEditResults [l, r])"
      using ex sp l(1) r(1) by (subst runStep2Robust.simps) (simp add: Let_def)
    then show ?thesis using passesItemsThrough_merge[OF l(2) r(2)] by simp
  qed
qed

lemma invalid_json_loop: "exit (retryLoop (alwaysInvalidJSON path) 0) = Exhausted"
proof -
  have "\<forall>i<3. retryableFailure (alwaysInvalidJSON path i)"
    using retryable_invalid_json[of "''Unexpected token''"]
    by (simp add: alwaysInvalidJSON_def retryableFailure_def runStep2Once_def)
  then show ?thesis using retryLoop_exhausted[of "alwaysInvalidJSON path"] by simp
qed

lemma invalid_json_never_throws: "\<not> isl (runStep2Robust alwaysInvalidJSON items path)"
  by (subst runStep2Robust.simps)
     (auto simp: invalid_json_loop Let_def split: sum.splits)

lemma invalid_json_exhausts_all: "exhaustsRetriesAndSplits alwaysInvalidJSON items path"
proof (induction alwaysInvalidJSON items path rule: exhaustsRetriesAndSplits.induct)
  case (1 items path)
  show ?case
    using 1 invalid_json_loop[of path]
    by (subst exhaustsRetriesAndSplits.simps) auto
qed

lemma invalid_json_small:
  assumes "length items \<le> STEP2_MIN_SPLIT_ITEMS"
  shows "unitFallsBack alwaysInvalidJSON items path"
    and "runStep2Robust alwaysInvalidJSON items path
           = Inr (buildStep2Fallback items ''MAX_RETRIES_AND_SPLITS_FAILED'')"
proof -
  show u: "unitFallsBack alwaysInvalidJSON items path"
    using assms invalid_json_loop[of path] by (simp add: unitFallsBack_def)
  show "runStep2Robust alwaysInvalidJSON items path
           = Inr (buildStep2Fallback items ''MAX_RETRIES_AND_SPLITS_FAILED'')"
    using unitFallsBack_gives_fallback[OF u] assms by simp
qed

lemma fortyOne_result:
  "runStep2Robust alwaysInvalidJSON fortyOneItems [] =
     Inr (mergePostEditResults
            [buildStep2Fallback (take 20 fortyOneItems) ''MAX_RETRIES_AND_SPLITS_FAILED'',
             buildStep2Fallback (drop 20 fortyOneItems) ''MAX_RETRIES_AND_SPLITS_FAILED''])"
proof -
  have len: "length fortyOneItems = 41" by (simp add: fortyOneItems_def)
  have l: "runStep2Robust alwaysInvalidJSON (take 20 fortyOneItems) [False]
      = Inr (buildStep2Fallback (take 20 fortyOneItems) ''MAX_RETRIES_AND_SPLITS_FAILED'')"
    by (rule invalid_json_small(2)) (simp add: len STEP2_MIN_SPLIT_ITEMS_def)
  have r: "runStep2Robust alwaysInvalidJSON (drop 20 fortyOneItems) [True]
      = Inr (buildStep2Fallback (drop 20 fortyOneItems) ''MAX_RETRIES_AND_SPLITS_FAILED'')"
    by (rule invalid_json_small(2)) (simp add: len STEP2_MIN_SPLIT_ITEMS_def)
  show ?thesis
    using l r len invalid_json_loop[of "[]"]
    by (subst runStep2Robust.simps)
       (simp add: Let_def STEP2_MIN_SPLIT_ITEMS_def STEP2_MAX_SPLIT_DEPTH_def)
qed

lemma sample_texts: "map bestAvailableText sampleItems = [''hello'', ''raw'', []]"
  by (simp add: sampleItems_def bestAvailableText_def truthy_def trim_def units.simps
      leadingWhiteSpace_def whiteSpaceCodes_def)

lemma exhausted_returns:
  assumes "exit (retryLoop (api path) 0) = Exhausted"
  shows "\<exists>r. runStep2Robust api items path = Inr r"
  using assms
  by (subst runStep2Robust.simps) (auto simp: Let_def split: sum.splits)

lemma exhausts_loop:
  "exhaustsRetriesAndSplits api items path \<Longrightarrow> exit (retryLoop (api path) 0) = Exhausted"
  by (subst (asm) exhaustsRetriesAndSplits.simps) simp

text \<open>
  Claim C1. Once the retry loop of a unit is exhausted the call returns a result: it does
  not throw, whatever the halves of a split do. Whenever the engine has exhausted its
  retries and its splits on the unit, the texts of the \<open>refined_script\<close> entries of that
  result are, in order, exactly the non-empty best-available texts (edited, else original,
  trimmed) of the unit's items, one entry for each such item; every entry has
  \<open>needs_review = true\<close>; the risk flags hold \<open>FALLBACK_USED\<close> and a reason code;
  \<open>removed_from_main\<close> is empty; and an input item whose text is not among the entries
  has an empty best-available text. When the unit could not be split, or a half threw, the
  result is the deterministic fallback of the whole unit, whose risk flags are exactly
  \<open>FALLBACK_USED\<close> and the reason code; otherwise it is the merge of the results for
  the two halves, each of which is of the same kind.
\<close>

theorem fallback_safety:
  assumes "exit (retryLoop (api path) 0) = Exhausted"
  shows "\<exists>r.
     runStep2Robust api items path = Inr r \<and>
     (exhaustsRetriesAndSplits api items path \<longrightarrow>
     map rs_text (refined_script r) = filter (\<lambda>t. t \<noteq> []) (map bestAvailableText items) \<and>
     length (refined_script r) = length (filter (\<lambda>item. bestAvailableText item \<noteq> []) items) \<and>
     (\<forall>x \<in> set (refined_script r). needs_review x = Some True \<and> rs_text x \<noteq> []) \<and>
     ''FALLBACK_USED'' \<in> set (risk_flags (qa_audit r)) \<and>
     (''SPLIT_AND_RETRY_FAILED'' \<in> set (risk_flags (qa_audit r)) \<or>
      ''MAX_RETRIES_AND_SPLITS_FAILED'' \<in> set (risk_flags (qa_audit r))) \<and>
     removed_from_main (removal_report r) = [] \<and>
     (\<forall>item \<in> set items.
        bestAvailableText item \<notin> set (map rs_text (refined_script r))
          \<longrightarrow> bestAvailableText item = []) \<and>
     (unitFallsBack api items path \<longrightarrow>
        (\<exists>reason \<in> {''SPLIT_AND_RETRY_FAILED'', ''MAX_RETRIES_AND_SPLITS_FAILED''}.
           r = buildStep2Fallback items reason \<and>
           risk_flags (qa_audit r) = [''FALLBACK_USED'', reason])) \<and>
     (\<not> unitFallsBack api items path \<longrightarrow>
        (\<exists>l rr.
           runStep2Robust api (take (length items div 2) items) (path @ [False]) = Inr l \<and>
           runStep2Robust api (drop (length items div 2) items) (path @ [True]) = Inr rr \<and>
           passesItemsThrough (take (length items div 2) items) l \<and>
           passesItemsThrough (drop (length items div 2) items) rr \<and>
           r = mergePostEditResults [l, rr])))"
proof (cases "exhaustsRetriesAndSplits api items path")
  case False
  with exhausted_returns[of api path items] assms show ?thesis by blast
next
  case all: True
  let ?mid = "length items div 2"
  let ?L = "runStep2Robust api (take ?mid items) (path @ [False])"
  let ?R = "runStep2Robust api (drop ?mid items) (path @ [True])"
  from exhausted_result[OF all] obtain r where
    run: "runStep2Robust api items path = Inr r" and p: "passesItemsThrough items r" by blast
  have texts: "map rs_text (refined_script r) = filter (\<lambda>t. t \<noteq> []) (map bestAvailableText items)"
    using p by (simp add: passesItemsThrough_def)
  have "length (map rs_text (refined_script r))
          = length (filter (\<lambda>t. t \<noteq> []) (map bestAvailableText items))"
    by (simp only: texts)
  then have len: "length (refined_script r) = length (filter (\<lambda>item. bestAvailableText item \<noteq> []) items)"
    by (simp add: filter_map comp_def)
  have entries: "\<forall>x \<in> set (refined_script r). needs_review x = Some True \<and> rs_text x \<noteq> []"
    using p by (simp add: passesItemsThrough_def list_all_iff)
  have absent: "\<forall>item \<in> set items.
        bestAvailableText item \<notin> set (map rs_text (refined_script r))
          \<longrightarrow> bestAvailableText item = []"
    unfolding texts by auto
  have flags: "''FALLBACK_USED'' \<in> set (risk_flags (qa_audit r))"
    "''SPLIT_AND_RETRY_FAILED'' \<in> set (risk_flags (qa_audit r)) \<or>
      ''MAX_RETRIES_AND_SPLITS_FAILED'' \<in> set (risk_flags (qa_audit r))"
    "removed_from_main (removal_report r) = []"
    using p by (simp_all add: passesItemsThrough_def)
  have direct: "\<exists>reason \<in> {''SPLIT_AND_RETRY_FAILED'', ''MAX_RETRIES_AND_SPLITS_FAILED''}.
           r = buildStep2Fallback items reason \<and>
           risk_flags (qa_audit r) = [''FALLBACK_USED'', reason]"
    if "unitFallsBack api items path"
  proof -
    define reason where "reason =
      (if length items > STEP2_MIN_SPLIT_ITEMS \<and> length path < STEP2_MAX_SPLIT_DEPTH
       then ''SPLIT_AND_RETRY_FAILED'' else ''MAX_RETRIES_AND_SPLITS_FAILED'')"
    have "r = buildStep2Fallback items reason"
      using unitFallsBack_gives_fallback[OF that] run by (simp add: reason_def)
    moreover have "reason \<in> {''SPLIT_AND_RETRY_FAILED'', ''MAX_RETRIES_AND_SPLITS_FAILED''}"
      by (simp add: reason_def)
    ultimately show ?thesis using fallback_fields(1)[of items reason] by blast
  qed
  have merged: "\<exists>l rr. ?L = Inr l \<and> ?R = Inr rr \<and>
           passesItemsThrough (take ?mid items) l \<and> passesItemsThrough (drop ?mid items) rr \<and>
           r = mergePostEditResults [l, rr]"
    if "\<not> unitFallsBack api items path"
  proof -
    note ex = assms
    with that have sp: "length items > STEP2_MIN_SPLIT_ITEMS \<and> length path < STEP2_MAX_SPLIT_DEPTH"
      and nl: "\<not> isl ?L" and nr: "\<not> isl ?R"
      by (auto simp: unitFallsBack_def split: if_splits)
    with all have eL: "exhaustsRetriesAndSplits api (take ?mid items) (path @ [False])"
      and eR: "exhaustsRetriesAndSplits api (drop ?mid items) (path @ [True])"
      by (subst (asm) exhaustsRetriesAndSplits.simps, simp)+
    from exhausted_result[OF eL] obtain l where
      l: "?L = Inr l" "passesItemsThrough (take ?mid items) l" by blast
    from exhausted_result[OF eR] obtain rr where
      rr: "?R = Inr rr" "passesItemsThrough (drop ?mid items) rr" by blast
    have "runStep2Robust api items path = Inr (mergePostEditResults [l, rr])"
      using ex sp l(1) rr(1) by (subst runStep2Robust.simps) (simp add: Let_def)
    with run have "r = mergePostEditResults [l, rr]" by simp
    with l rr show ?thesis by blast
  qed
  show ?thesis
    using run texts len entries flags absent direct merged by (intro exI[of _ r]) blast
qed

theorem fallback_safety_witness:
  "exit (retryLoop (alwaysInvalidJSON []) 0) = Exhausted \<and>
   exhaustsRetriesAndSplits alwaysInvalidJSON sampleItems [] \<and>
   unitFallsBack alwaysInvalidJSON sampleItems [] \<and>
   runStep2Robust alwaysInvalidJSON sampleItems []
     = Inr (buildStep2Fallback sampleItems ''MAX_RETRIES_AND_SPLITS_FAILED'') \<and>
   map bestAvailableText sampleItems = [''hello'', ''raw'', []] \<and>
   map rs_text (refined_script (buildStep2Fallback sampleItems ''MAX_RETRIES_AND_SPLITS_FAILED''))
     = [''hello'', ''raw''] \<and>
   exhaustsRetriesAndSplits alwaysInvalidJSON fortyOneItems [] \<and>
   \<not> unitFallsBack alwaysInvalidJSON fortyOneItems [] \<and>
   runStep2Robust alwaysInvalidJSON fortyOneItems [] =
     Inr (mergePostEditResults
            [buildStep2Fallback (take 20 fortyOneItems) ''MAX_RETRIES_AND_SPLITS_FAILED'',
             buildStep2Fallback (drop 20 fortyOneItems) ''MAX_RETRIES_AND_SPLITS_FAILED'']) \<and>
   map rs_text (refined_script (mergePostEditResults
            [buildStep2Fallback (take 20 fortyOneItems) ''MAX_RETRIES_AND_SPLITS_FAILED'',
             buildStep2Fallback (drop 20 fortyOneItems) ''MAX_RETRIES_AND_SPLITS_FAILED'']))
     = replicate 41 ''hello''"
proof -
  have small: "length sampleItems \<le> STEP2_MIN_SPLIT_ITEMS"
    by (simp add: sampleItems_def STEP2_MIN_SPLIT_ITEMS_def)
  have e3: "exhaustsRetriesAndSplits alwaysInvalidJSON sampleItems []"
    by (rule invalid_json_exhausts_all)
  have u3: "unitFallsBack alwaysInvalidJSON sampleItems []"
    and r3: "runStep2Robust alwaysInvalidJSON sampleItems []
     = Inr (buildStep2Fallback sampleItems ''MAX_RETRIES_AND_SPLITS_FAILED'')"
    using invalid_json_small[OF small] by simp_all
  from fallback_safety[of alwaysInvalidJSON "[]" sampleItems] invalid_json_loop[of "[]"] e3 r3 have t3:
    "map rs_text (refined_script (buildStep2Fallback sampleItems ''MAX_RETRIES_AND_SPLITS_FAILED''))
       = filter (\<lambda>t. t \<noteq> []) (map bestAvailableText sampleItems)"
    by auto
  have e41: "exhaustsRetriesAndSplits alwaysInvalidJSON fortyOneItems []"
    by (rule invalid_json_exhausts_all)
  have n41: "\<not> unitFallsBack alwaysInvalidJSON fortyOneItems []"
    using invalid_json_never_throws
    by (simp add: unitFallsBack_def fortyOneItems_def STEP2_MIN_SPLIT_ITEMS_def
        STEP2_MAX_SPLIT_DEPTH_def)
  from fallback_safety[of alwaysInvalidJSON "[]" fortyOneItems] invalid_json_loop[of "[]"] e41 fortyOne_result have t41:
    "map rs_text (refined_script (mergePostEditResults
            [buildStep2Fallback (take 20 fortyOneItems) ''MAX_RETRIES_AND_SPLITS_FAILED'',
             buildStep2Fallback (drop 20 fortyOneItems) ''MAX_RETRIES_AND_SPLITS_FAILED'']))
       = filter (\<lambda>t. t \<noteq> []) (map bestAvailableText fortyOneItems)"
    by auto
  have "bestAvailableText (hd sampleItems) = ''hello''"
    using sample_texts by (simp add: sampleItems_def)
  then have b41: "filter (\<lambda>t. t \<noteq> []) (map bestAvailableText fortyOneItems) = replicate 41 ''hello''"
    by (simp add: fortyOneItems_def)
  show ?thesis
    using invalid_json_loop[of "[]"] e3 u3 r3 sample_texts t3 e41 n41 fortyOne_result t41 b41
    by simp
qed

section \<open>Stage 1: the concurrency cap\<close>

lemma map_chunk_id_same:
  assumes "\<And>c. chunk_id (f c) = chunk_id c"
  shows "map chunk_id (map f cs) = map chunk_id cs"
  using assms by (induction cs) auto

lemma processing_count_le:
  assumes "distinct (map chunk_id cs)"
    and "\<forall>c \<in> set cs. status c = Processing \<longrightarrow> chunk_id c \<in> set ids"
  shows "length (filter (\<lambda>c. status c = Processing) cs) \<le> length ids"
proof -
  let ?ps = "filter (\<lambda>c. status c = Processing) cs"
  have d: "distinct (map chunk_id ?ps)" using assms(1) by (rule distinct_map_filter)
  have "set (map chunk_id ?ps) \<subseteq> set ids" using assms(2) by auto
  then have "card (set (map chunk_id ?ps)) \<le> card (set ids)" by (simp add: card_mono)
  moreover have "card (set (map chunk_id ?ps)) = length ?ps"
    using distinct_card[OF d] by simp
  moreover have "card (set ids) \<le> length ids" by (rule card_length)
  ultimately show ?thesis by simp
qed

lemma stage1Inv_count:
  "stage1Inv s \<Longrightarrow> int (processingChunks s) \<le> processing (stats s)"
  using processing_count_le[of "chunks s" "inFlight s"]
  by (simp add: stage1Inv_def processingChunks_def)

lemma stage1Inv_start:
  assumes "inFlight s0 = []"
  shows "stage1Inv (initializeDecoded D (initializeStart s0))"
proof -
  have "\<forall>c \<in> set (newChunks D C). status c = Pending" for C
    by (simp add: newChunks_def)
  then have "\<forall>c \<in> set (initialChunks D). status c \<noteq> Processing"
    by (auto simp: initialChunks_def)
  then show ?thesis
    using distinct_initialChunk_ids[of D "shrinkChunkSeconds TARGET_CHUNK_SECONDS"] assms
    by (simp add: stage1Inv_def initializeDecoded_def initializeStart_def
        Let_def initialChunks_def)
qed

lemma stage1Inv_fresh: "stage1Inv (freshRun key D)"
  unfolding freshRun_def by (rule stage1Inv_start) (simp add: initialState_def)

lemma stage1Inv_processChunkStart:
  assumes "stage1Inv s" "processing (stats s) < maxConcurrency s"
  shows "stage1Inv (processChunkStart chunkId s)"
proof -
  have ids: "map chunk_id (map (\<lambda>c. if chunk_id c = chunkId then c\<lparr> status := Processing \<rparr> else c) (chunks s))
      = map chunk_id (chunks s)"
    by (rule map_chunk_id_same) simp
  have ids2: "map chunk_id (map (\<lambda>c. if status c = Pending
                                then c\<lparr> status := Failed, chunk_error := Some ''Missing API Key'' \<rparr>
                                else c) (chunks s)) = map chunk_id (chunks s)"
    by (rule map_chunk_id_same) simp
  have five: "processing (stats s) + 1 \<le> 5" using assms by (auto simp: stage1Inv_def)
  show ?thesis
    using assms(1) five unfolding processChunkStart_def stage1Inv_def
    by (auto simp: ids ids2 simp del: map_map)
qed

lemma stage1Inv_autoRun: "stage1Inv s \<Longrightarrow> stage1Inv (autoRun s)"
  by (auto simp: autoRun_def stage1Inv_processChunkStart split: option.splits)


lemma processChunkSettle_chunks:
  "\<exists>f. chunks (processChunkSettle chunkId outcome s) = map f (chunks s) \<and>
       (\<forall>c. chunk_id (f c) = chunk_id c) \<and>
       (\<forall>c. status (f c) = Processing \<longrightarrow> status c = Processing \<and> chunk_id c \<noteq> chunkId)"
proof (cases outcome)
  case (ChunkSucceeds j)
  then show ?thesis
    by (intro exI[of _ "\<lambda>c. if chunk_id c = chunkId
           then c\<lparr> status := Completed, content := Some j \<rparr> else c"])
       (simp add: processChunkSettle_def)
next
  case (ChunkThrows e)
  let ?msg = "errorMsg e"
  let ?inv = "includes_str ?msg ''API key not valid'' \<or> includes_str ?msg ''API_KEY_INVALID''"
  show ?thesis
  proof (cases "\<not> ?inv \<and> isRateLimit ?msg")
    case True
    then show ?thesis using ChunkThrows
      by (intro exI[of _ "\<lambda>c. if chunk_id c = chunkId
             then c\<lparr> status := Pending, chunk_error := None \<rparr> else c"])
         (simp add: processChunkSettle_def Let_def)
  next
    case False
    then show ?thesis using ChunkThrows
      by (intro exI[of _ "\<lambda>c. if chunk_id c = chunkId
             then c\<lparr> status := Failed, chunk_error := Some ?msg \<rparr> else c"])
         (auto simp: processChunkSettle_def Let_def)
  qed
qed

lemma processChunkSettle_processing:
  "processing (stats (processChunkSettle chunkId outcome s)) = max 0 (processing (stats s) - 1)"
  by (cases outcome) (auto simp: processChunkSettle_def Let_def decProcessing_def)

lemma processChunkSettle_others:
  "inFlight (processChunkSettle chunkId outcome s) = inFlight s"
  "maxConcurrency (processChunkSettle chunkId outcome s) = maxConcurrency s \<or>
   maxConcurrency (processChunkSettle chunkId outcome s) = 1"
  by (cases outcome; auto simp: processChunkSettle_def Let_def)+

lemma stage1Inv_settle:
  assumes "stage1Inv s" "chunkId \<in> set (inFlight s)"
  shows "stage1Inv (processChunkSettle chunkId outcome (s\<lparr> inFlight := remove1 chunkId (inFlight s) \<rparr>))"
proof -
  let ?s1 = "s\<lparr> inFlight := remove1 chunkId (inFlight s) \<rparr>"
  let ?s' = "processChunkSettle chunkId outcome ?s1"
  obtain f where f: "chunks ?s' = map f (chunks s)"
    and fid: "\<And>c. chunk_id (f c) = chunk_id c"
    and fst: "\<And>c. status (f c) = Processing \<Longrightarrow> status c = Processing \<and> chunk_id c \<noteq> chunkId"
    using processChunkSettle_chunks[of chunkId outcome ?s1] by auto
  have ids: "map chunk_id (chunks ?s') = map chunk_id (chunks s)"
    unfolding f by (rule map_chunk_id_same) (rule fid)
  have len: "length (remove1 chunkId (inFlight s)) = length (inFlight s) - 1"
    using assms(2) by (simp add: length_remove1)
  have pos: "1 \<le> length (inFlight s)" using assms(2) by (cases "inFlight s") auto
  have p: "processing (stats ?s') = int (length (inFlight ?s'))"
    using assms(1) len pos
    by (simp add: processChunkSettle_processing processChunkSettle_others stage1Inv_def)
  have five: "processing (stats ?s') \<le> 5"
    using assms(1) by (simp add: processChunkSettle_processing stage1Inv_def)
  have fl: "\<forall>c \<in> set (chunks ?s'). status c = Processing \<longrightarrow> chunk_id c \<in> set (inFlight ?s')"
  proof
    fix c assume "c \<in> set (chunks ?s')"
    then obtain c0 where c0: "c0 \<in> set (chunks s)" "c = f c0" unfolding f by auto
    show "status c = Processing \<longrightarrow> chunk_id c \<in> set (inFlight ?s')"
    proof
      assume "status c = Processing"
      with c0 fst[of c0] have "status c0 = Processing" "chunk_id c0 \<noteq> chunkId" by auto
      moreover from this c0 assms(1) have "chunk_id c0 \<in> set (inFlight s)"
        by (auto simp: stage1Inv_def)
      ultimately show "chunk_id c \<in> set (inFlight ?s')"
        using c0 fid[of c0] by (simp add: processChunkSettle_others)
    qed
  qed
  have mc: "maxConcurrency ?s' \<in> {1, 5}"
    using assms(1) processChunkSettle_others(2)[of chunkId outcome ?s1]
    by (auto simp: stage1Inv_def)
  show ?thesis
    unfolding stage1Inv_def using ids assms(1) fl p five mc by (simp add: stage1Inv_def)
qed

lemma stage1Inv_retryChunk: "stage1Inv s \<Longrightarrow> stage1Inv (retryChunk chunkId s)"
proof -
  assume a: "stage1Inv s"
  have ids: "map chunk_id (map (\<lambda>c. if chunk_id c = chunkId
                             then c\<lparr> status := Pending, chunk_error := None \<rparr> else c) (chunks s))
      = map chunk_id (chunks s)"
    by (rule map_chunk_id_same) simp
  show ?thesis using a unfolding retryChunk_def stage1Inv_def
    by (auto simp: ids simp del: map_map)
qed

lemma stage1Inv_retryAllFailed: "stage1Inv s \<Longrightarrow> stage1Inv (retryAllFailed s)"
proof -
  assume a: "stage1Inv s"
  have ids: "map chunk_id (map (\<lambda>c. if status c = Failed
                                  then c\<lparr> status := Pending, chunk_error := None \<rparr> else c) (chunks s))
      = map chunk_id (chunks s)"
    by (rule map_chunk_id_same) simp
  show ?thesis using a unfolding retryAllFailed_def stage1Inv_def
    by (auto simp: ids simp del: map_map)
qed

lemma stage1Inv_stage2:
  assumes "stage1Inv s"
  shows "stage1Inv (performStep2Finalization jl t s)" "stage1Inv (processQueueStart s)"
    "stage1Inv (processQueueSettle b r (s\<lparr> step2InFlight := x \<rparr>))" "stage1Inv (mergeEffect s)"
    "stage1Inv (retryStep2Batch b s)" "stage1Inv (retryAllFailedStep2 s)"
    "stage1Inv (clearCooldownNow s)"
    "stage1Inv (s\<lparr> stats := tickStats (stats s), step2Stats := tickStats (step2Stats s) \<rparr>)"
  using assms
  by (auto simp: stage1Inv_def performStep2Finalization_def processQueueStart_def
      processQueueSettle_def processQueueCatch_def mergeEffect_def retryStep2Batch_def
      retryAllFailedStep2_def clearCooldownNow_def tickStats_def Let_def
      split: option.splits sum.splits)

lemma stage1Inv_step:
  assumes "stage1Inv s" "withinRun ev"
  shows "stage1Inv (step jl ev s)"
  using assms
  by (cases ev)
     (simp_all add: stage1Inv_autoRun stage1Inv_settle stage1Inv_retryChunk
        stage1Inv_retryAllFailed stage1Inv_stage2)

lemma stage1Inv_run:
  assumes "\<forall>ev \<in> set events. withinRun ev" "stage1Inv s"
  shows "stage1Inv (runEvents jl events s)"
  using assms unfolding runEvents_def
  by (induction events arbitrary: s) (simp_all add: stage1Inv_step)

lemma step_maxConcurrency:
  assumes "withinRun ev"
  shows "maxConcurrency (step jl ev s) = maxConcurrency s \<or> maxConcurrency (step jl ev s) = 1"
proof (cases ev)
  case (ChunkSettles chunkId outcome)
  then show ?thesis
    using processChunkSettle_others(2)[of chunkId outcome "s\<lparr> inFlight := remove1 chunkId (inFlight s) \<rparr>"]
    by auto
qed (use assms in \<open>auto simp: autoRun_def processChunkStart_def retryChunk_def retryAllFailed_def
      clearCooldownNow_def performStep2Finalization_def processQueueStart_def
      processQueueSettle_def processQueueCatch_def mergeEffect_def retryStep2Batch_def
      retryAllFailedStep2_def Let_def split: option.splits sum.splits\<close>)

lemma rateLimit_drops_cap:
  assumes "chunkId \<in> set (inFlight s)" "rateLimitFailure e"
  shows "maxConcurrency (step jl (ChunkSettles chunkId (ChunkThrows e)) s) = 1"
  using assms by (simp add: processChunkSettle_def rateLimitFailure_def Let_def)

lemma autoRun_gate:
  assumes "autoRun s \<noteq> s"
  shows "processing (stats s) < maxConcurrency s \<and> \<not> isCoolingDown (stats s)"
  using assms by (auto simp: autoRun_def split: option.splits if_splits)

lemma autoRun_maxConcurrency: "maxConcurrency (autoRun s) = maxConcurrency s"
  by (auto simp: autoRun_def processChunkStart_def split: option.splits)

lemma autoRun_processing: "processing (stats (autoRun s)) \<le> processing (stats s) + 1"
  by (auto simp: autoRun_def processChunkStart_def split: option.splits)


text \<open>
  Claim C2, as the code has it. Take a run of stage 1 that starts with no call of an
  earlier run outstanding: \<^verbatim>\<open>initializeChunks\<close> runs to its end in such a state, and
  neither \<^verbatim>\<open>reset\<close> nor a further \<^verbatim>\<open>initializeChunks\<close> follows. Then
  \<^verbatim>\<open>maxConcurrency\<close> starts at 5; the number of chunks in the processing state is at
  most \<^verbatim>\<open>stats.processing\<close>, never exceeds 5, and is at most \<^verbatim>\<open>maxConcurrency\<close> as
  long as that is still 5; the scheduler launches a chunk only while
  \<^verbatim>\<open>stats.processing < maxConcurrency\<close> and no cooldown is active, so that right after a
  launch the number of processing chunks is at most \<^verbatim>\<open>maxConcurrency\<close>; every
  rate-limit failure of a chunk sets \<^verbatim>\<open>maxConcurrency\<close> to 1; no event of the run
  raises it; \<^verbatim>\<open>reset\<close> and \<^verbatim>\<open>initializeChunks\<close> set it back to 5. Chunks that are in
  flight when the cap drops are not cancelled.
\<close>

theorem stage1_concurrency_cap:
  assumes "\<forall>ev \<in> set events. withinRun ev" "inFlight s0 = []"
  shows "maxConcurrency (initializeDecoded D (initializeStart s0)) = 5 \<and>
     (let s = runEvents jl events (initializeDecoded D (initializeStart s0)) in
        int (processingChunks s) \<le> processing (stats s) \<and>
        int (processingChunks s) \<le> 5 \<and>
        maxConcurrency s \<in> {1, 5} \<and>
        (maxConcurrency s = 5 \<longrightarrow> int (processingChunks s) \<le> maxConcurrency s) \<and>
        (autoRun s \<noteq> s \<longrightarrow>
           processing (stats s) < maxConcurrency s \<and> \<not> isCoolingDown (stats s) \<and>
           int (processingChunks (autoRun s)) \<le> maxConcurrency (autoRun s)) \<and>
        (\<forall>chunkId e. chunkId \<in> set (inFlight s) \<and> rateLimitFailure e \<longrightarrow>
           maxConcurrency (step jl (ChunkSettles chunkId (ChunkThrows e)) s) = 1) \<and>
        (\<forall>ev. withinRun ev \<longrightarrow> maxConcurrency (step jl ev s) \<le> maxConcurrency s) \<and>
        maxConcurrency (step jl Reset s) = 5 \<and>
        maxConcurrency (step jl InitializeStart s) = 5)"
proof -
  define s where "s = runEvents jl events (initializeDecoded D (initializeStart s0))"
  have inv: "stage1Inv s"
    unfolding s_def using assms(1) stage1Inv_start[OF assms(2)] by (rule stage1Inv_run)
  have start: "maxConcurrency (initializeDecoded D (initializeStart s0)) = 5"
    by (simp add: initializeDecoded_def initializeStart_def Let_def)
  have cnt: "int (processingChunks s) \<le> processing (stats s)"
    using inv by (rule stage1Inv_count)
  have five: "processing (stats s) \<le> 5" and mc: "maxConcurrency s \<in> {1, 5}"
    using inv by (simp_all add: stage1Inv_def)
  have launch: "processing (stats s) < maxConcurrency s \<and> \<not> isCoolingDown (stats s) \<and>
           int (processingChunks (autoRun s)) \<le> maxConcurrency (autoRun s)"
    if "autoRun s \<noteq> s"
  proof -
    have g: "processing (stats s) < maxConcurrency s \<and> \<not> isCoolingDown (stats s)"
      using that by (rule autoRun_gate)
    have "int (processingChunks (autoRun s)) \<le> processing (stats (autoRun s))"
      using stage1Inv_autoRun[OF inv] by (rule stage1Inv_count)
    with g autoRun_processing[of s] show ?thesis by (simp add: autoRun_maxConcurrency)
  qed
  have mono: "maxConcurrency (step jl ev s) \<le> maxConcurrency s" if "withinRun ev" for ev
    using step_maxConcurrency[OF that, of jl s] mc by auto
  have resets: "maxConcurrency (step jl Reset s) = 5" "maxConcurrency (step jl InitializeStart s) = 5"
    by (simp_all add: reset_def initializeStart_def)
  show ?thesis
    unfolding Let_def s_def[symmetric]
    using start cnt five mc launch mono resets rateLimit_drops_cap[of _ s _ jl] by auto
qed

theorem stage1_concurrency_cap_witness:
  "list_all withinRun rateLimitedRun \<and>
   inFlight (initialState True) = [] \<and>
   maxConcurrency (freshRun True 185) = 5 \<and>
   int (processingChunks (runEvents (\<lambda>item. 0) rateLimitedRun (freshRun True 185))) \<le> 5 \<and>
   maxConcurrency (runEvents (\<lambda>item. 0) rateLimitedRun (freshRun True 185)) \<in> {1, 5}"
proof -
  have w: "\<forall>ev \<in> set rateLimitedRun. withinRun ev"
    by (simp add: rateLimitedRun_def)
  then have l: "list_all withinRun rateLimitedRun" by (simp add: list_all_iff)
  have i: "inFlight (initialState True) = []" by (simp add: initialState_def)
  show ?thesis
    using stage1_concurrency_cap[OF w i, of 185 "\<lambda>item. 0"] l i
    by (simp add: Let_def freshRun_def)
qed

text \<open>
  The claim as stated fails: after three launches and one rate-limit failure, two chunks
  are in the processing state while \<^verbatim>\<open>maxConcurrency\<close> is 1. It also fails when a run
  starts while calls of an earlier run are outstanding: such a call takes one off the
  counter when it settles, and the scan then launches a sixth chunk under a cap of 5.
\<close>

theorem processing_exceeds_cap_counterexample:
  "processingChunks (runEvents (\<lambda>item. 0) rateLimitedRun (freshRun True 185)) = 2 \<and>
   maxConcurrency (runEvents (\<lambda>item. 0) rateLimitedRun (freshRun True 185)) = 1 \<and>
   processingChunks (runEvents (\<lambda>item. 0) staleCallRun (initialState True)) = 6 \<and>
   maxConcurrency (runEvents (\<lambda>item. 0) staleCallRun (initialState True)) = 5"
  by code_simp

section \<open>Cooldown\<close>

lemma cooldownInv_tick: "cooldownInv st \<Longrightarrow> cooldownInv (tickStats st)"
  by (auto simp: cooldownInv_def tickStats_def Let_def)

lemma cooldownInv_zero: "cooldownInv zeroStats"
  by (simp add: cooldownInv_def zeroStats_def)

lemma cooldownInv_step:
  assumes "cooldownInv (stats s)" "cooldownInv (step2Stats s)"
  shows "cooldownInv (stats (step jl ev s)) \<and> cooldownInv (step2Stats (step jl ev s))"
proof (cases ev)
  case (ChunkSettles chunkId outcome)
  then show ?thesis using assms
    by (cases outcome)
       (auto simp: processChunkSettle_def Let_def decProcessing_def cooldownInv_def)
next
  case Tick
  then show ?thesis using assms by (simp add: cooldownInv_tick)
next
  case (BatchSettles batchId settled)
  then show ?thesis using assms
    by (auto simp: processQueueSettle_def processQueueCatch_def Let_def cooldownInv_def
        split: sum.splits)
next
  case (TriggerStep2 t)
  then show ?thesis using assms
    by (auto simp: performStep2Finalization_def Let_def cooldownInv_def split: option.splits)
qed (use assms in \<open>auto simp: initializeStart_def initializeDecoded_def autoRun_def
      processChunkStart_def retryChunk_def retryAllFailed_def clearCooldownNow_def reset_def
      processQueueStart_def mergeEffect_def retryStep2Batch_def retryAllFailedStep2_def
      cooldownInv_def zeroStats_def Let_def split: option.splits\<close>)

lemma cooldownInv_run:
  assumes "cooldownInv (stats s)" "cooldownInv (step2Stats s)"
  shows "cooldownInv (stats (runEvents jl events s)) \<and>
         cooldownInv (step2Stats (runEvents jl events s))"
  using assms unfolding runEvents_def
proof (induction events arbitrary: s)
  case Nil
  then show ?case by simp
next
  case (Cons ev events)
  from cooldownInv_step[OF Cons.prems, of jl ev]
  show ?case using Cons.IH[of "step jl ev s"] by simp
qed

lemma cooldownInv_initial:
  "cooldownInv (stats (initialState key))" "cooldownInv (step2Stats (initialState key))"
  by (simp_all add: initialState_def cooldownInv_zero)

text \<open>Ticks on a running cooldown count down one by one and clear the flag at zero.\<close>

lemma tickStats_running:
  assumes "isCoolingDown t" "1 < cooldownSeconds t"
  shows "cooldownSeconds (tickStats t) = cooldownSeconds t - 1 \<and> isCoolingDown (tickStats t)"
  using assms by (simp add: tickStats_def Let_def)

lemma tickStats_last:
  assumes "isCoolingDown t" "cooldownSeconds t = 1"
  shows "cooldownSeconds (tickStats t) = 0 \<and> \<not> isCoolingDown (tickStats t)"
  using assms by (simp add: tickStats_def Let_def)

lemma tickStats_countdown:
  assumes "isCoolingDown st" "cooldownSeconds st = int n" "k < n"
  shows "cooldownSeconds ((tickStats ^^ k) st) = int n - int k \<and>
         isCoolingDown ((tickStats ^^ k) st)"
  using assms(3)
proof (induction k)
  case 0
  then show ?case using assms(1,2) by simp
next
  case (Suc k)
  define t where "t = (tickStats ^^ k) st"
  from Suc have t: "cooldownSeconds t = int n - int k" "isCoolingDown t"
    by (simp_all add: t_def)
  then have "1 < cooldownSeconds t" using Suc.prems by simp
  from tickStats_running[OF t(2) this] t(1)
  have "cooldownSeconds (tickStats t) = int n - int (Suc k) \<and> isCoolingDown (tickStats t)"
    by simp
  then show ?case by (simp add: t_def)
qed

lemma tickStats_expires:
  assumes "isCoolingDown st" "cooldownSeconds st = int n" "0 < n"
  shows "cooldownSeconds ((tickStats ^^ n) st) = 0 \<and> \<not> isCoolingDown ((tickStats ^^ n) st)"
proof -
  obtain m where n: "n = Suc m" using assms(3) by (cases n) auto
  define t where "t = (tickStats ^^ m) st"
  have "cooldownSeconds t = int n - int m \<and> isCoolingDown t"
    unfolding t_def using tickStats_countdown[OF assms(1,2), of m] n by simp
  then have "isCoolingDown t" "cooldownSeconds t = 1" using n by simp_all
  from tickStats_last[OF this] show ?thesis by (simp add: n t_def)
qed

lemma chunk_rateLimit_sets_cooldown:
  assumes "chunkId \<in> set (inFlight s)" "rateLimitFailure e"
  shows "isCoolingDown (stats (step jl (ChunkSettles chunkId (ChunkThrows e)) s)) \<and>
         cooldownSeconds (stats (step jl (ChunkSettles chunkId (ChunkThrows e)) s)) = 60 \<and>
         step2Stats (step jl (ChunkSettles chunkId (ChunkThrows e)) s) = step2Stats s"
  using assms
  by (simp add: processChunkSettle_def rateLimitFailure_def Let_def decProcessing_def)

lemma batch_rateLimit_sets_cooldown:
  assumes "batchId \<in> set (step2InFlight s)" "isRateLimit (errorMsg e)"
  shows "isCoolingDown (step2Stats (step jl (BatchSettles batchId (Inl e)) s)) \<and>
         cooldownSeconds (step2Stats (step jl (BatchSettles batchId (Inl e)) s)) = 60 \<and>
         stats (step jl (BatchSettles batchId (Inl e)) s) = stats s"
  using assms
  by (simp add: processQueueSettle_def processQueueCatch_def Let_def)

lemma cooling_blocks_scanning:
  "isCoolingDown (stats s) \<Longrightarrow> autoRun s = s"
  "isCoolingDown (step2Stats s) \<Longrightarrow> processQueueStart s = s"
  by (auto simp: autoRun_def processQueueStart_def split: option.splits)

lemma tick_decrements:
  assumes "cooldownInv st" "isCoolingDown st"
  shows "cooldownSeconds (tickStats st) = cooldownSeconds st - 1 \<and>
         isCoolingDown (tickStats st) = (1 < cooldownSeconds st)"
  using assms by (auto simp: cooldownInv_def tickStats_def Let_def)


text \<open>Once the flag is cleared, each stage launches again as soon as its gate lets it.\<close>

lemma ticks_run:
  "runEvents jl (replicate n Tick) s =
     s\<lparr> stats := (tickStats ^^ n) (stats s), step2Stats := (tickStats ^^ n) (step2Stats s) \<rparr>"
proof (induction n arbitrary: s)
  case 0
  then show ?case by (simp add: runEvents_def)
next
  case (Suc n)
  have "runEvents jl (replicate (Suc n) Tick) s = runEvents jl (replicate n Tick) (step jl Tick s)"
    by (simp add: runEvents_def)
  also have "\<dots> = s\<lparr> stats := (tickStats ^^ n) (tickStats (stats s)),
                      step2Stats := (tickStats ^^ n) (tickStats (step2Stats s)) \<rparr>"
    unfolding Suc.IH by simp
  finally show ?case by (simp add: funpow_swap1)
qed

lemma autoRun_resumes:
  assumes "\<not> isCoolingDown (stats s)" "processing (stats s) < maxConcurrency s"
    "apiKeyPresent s" "audioBufferLoaded s"
    "find (\<lambda>c. status c = Pending) (chunks s) = Some c"
  shows "autoRun s =
     s\<lparr> stats := (stats s)\<lparr> processing := processing (stats s) + 1 \<rparr>,
        chunks := map (\<lambda>x. if chunk_id x = chunk_id c then x\<lparr> status := Processing \<rparr> else x)
                      (chunks s),
        inFlight := chunk_id c # inFlight s \<rparr>"
proof -
  from assms(5) have "c \<in> set (chunks s)" by (auto simp: find_Some_iff)
  then have "find (\<lambda>x. chunk_id x = chunk_id c) (chunks s) \<noteq> None"
    by (auto simp: find_None_iff)
  then obtain y where "find (\<lambda>x. chunk_id x = chunk_id c) (chunks s) = Some y" by blast
  then show ?thesis
    using assms by (simp add: autoRun_def processChunkStart_def)
qed

lemma processQueue_resumes:
  assumes "\<not> isCoolingDown (step2Stats s)" "isFinalizing s" "\<not> processing (step2Stats s) > 0"
    "find (\<lambda>b. batch_status b = Pending) (step2Batches s) = Some b"
  shows "processQueueStart s =
     s\<lparr> step2Batches := map (\<lambda>x. if batch_id x = batch_id b
                                   then x\<lparr> batch_status := Processing \<rparr> else x)
                            (step2Batches s),
        step2Stats := (step2Stats s)\<lparr> processing := processing (step2Stats s) + 1 \<rparr>,
        step2InFlight := batch_id b # step2InFlight s \<rparr>"
  using assms by (simp add: processQueueStart_def)

lemma tickStats_keeps:
  "processing ((tickStats ^^ n) st) = processing st"
proof (induction n)
  case 0
  then show ?case by simp
next
  case (Suc n)
  then show ?case by (simp add: tickStats_def Let_def)
qed

lemma resumes_after_cooldown:
  assumes "isCoolingDown (stats s)" "cooldownSeconds (stats s) = 60"
    "processing (stats s) < maxConcurrency s" "apiKeyPresent s" "audioBufferLoaded s"
    "find (\<lambda>c. status c = Pending) (chunks s) = Some c"
  shows "autoRun (runEvents jl (replicate 60 Tick) s) =
     (runEvents jl (replicate 60 Tick) s)
       \<lparr> stats := (stats (runEvents jl (replicate 60 Tick) s))
                     \<lparr> processing := processing (stats s) + 1 \<rparr>,
         chunks := map (\<lambda>x. if chunk_id x = chunk_id c then x\<lparr> status := Processing \<rparr> else x)
                       (chunks s),
         inFlight := chunk_id c # inFlight s \<rparr>"
proof -
  define s' where "s' = runEvents jl (replicate 60 Tick) s"
  have e: "s' = s\<lparr> stats := (tickStats ^^ 60) (stats s),
                   step2Stats := (tickStats ^^ 60) (step2Stats s) \<rparr>"
    unfolding s'_def by (rule ticks_run)
  have c: "cooldownSeconds (stats s) = int 60" using assms(2) by simp
  have n: "\<not> isCoolingDown (stats s')"
    unfolding e using tickStats_expires[OF assms(1) c] by simp
  have p: "processing (stats s') = processing (stats s)"
    unfolding e by (simp add: tickStats_keeps)
  have k: "maxConcurrency s' = maxConcurrency s" "apiKeyPresent s' = apiKeyPresent s"
    "audioBufferLoaded s' = audioBufferLoaded s" "chunks s' = chunks s" "inFlight s' = inFlight s"
    unfolding e by simp_all
  have "autoRun s' =
     s'\<lparr> stats := (stats s')\<lparr> processing := processing (stats s') + 1 \<rparr>,
         chunks := map (\<lambda>x. if chunk_id x = chunk_id c then x\<lparr> status := Processing \<rparr> else x)
                       (chunks s'),
         inFlight := chunk_id c # inFlight s' \<rparr>"
    by (rule autoRun_resumes) (simp_all add: n p k assms)
  then show ?thesis unfolding s'_def[symmetric] by (simp only: p k)
qed

text \<open>
  Claim C7, as the code has it. Each stage has one cooldown: a flag and a remaining time,
  which stays between 0 and 60. A rate-limit failure sets the flag and sets the remaining
  time to the fixed 60, whether or not a cooldown is already active: a second signal during
  a cooldown starts the 60 again and does not add to it. Each tick takes one off the
  remaining time of an active cooldown; the tick that reaches zero clears the flag, which
  happens 60 ticks after the cooldown was set. While the flag is set the stage's scan
  launches nothing. Once the flag is cleared scanning resumes: the scan of stage 1 launches
  the first pending chunk as soon as fewer than \<^verbatim>\<open>maxConcurrency\<close> chunks are counted
  as processing (the API key and the audio being there), and the queue of stage 2 launches
  the first pending batch as soon as none is counted as processing; sixty ticks after a
  rate-limit failure the scan of stage 1 launches again if its counter is below the cap.
\<close>

theorem cooldown_policy:
  "(let s = runEvents jl events (initialState key) in
      cooldownInv (stats s) \<and> cooldownInv (step2Stats s) \<and>
      (\<forall>chunkId e. chunkId \<in> set (inFlight s) \<and> rateLimitFailure e \<longrightarrow>
         isCoolingDown (stats (step jl (ChunkSettles chunkId (ChunkThrows e)) s)) \<and>
         cooldownSeconds (stats (step jl (ChunkSettles chunkId (ChunkThrows e)) s)) = 60 \<and>
         step2Stats (step jl (ChunkSettles chunkId (ChunkThrows e)) s) = step2Stats s) \<and>
      (\<forall>batchId e. batchId \<in> set (step2InFlight s) \<and> isRateLimit (errorMsg e) \<longrightarrow>
         isCoolingDown (step2Stats (step jl (BatchSettles batchId (Inl e)) s)) \<and>
         cooldownSeconds (step2Stats (step jl (BatchSettles batchId (Inl e)) s)) = 60 \<and>
         stats (step jl (BatchSettles batchId (Inl e)) s) = stats s) \<and>
      (isCoolingDown (stats s) \<longrightarrow>
         cooldownSeconds (stats (step jl Tick s)) = cooldownSeconds (stats s) - 1 \<and>
         isCoolingDown (stats (step jl Tick s)) = (1 < cooldownSeconds (stats s)) \<and>
         autoRun s = s) \<and>
      (isCoolingDown (step2Stats s) \<longrightarrow>
         cooldownSeconds (step2Stats (step jl Tick s)) = cooldownSeconds (step2Stats s) - 1 \<and>
         isCoolingDown (step2Stats (step jl Tick s)) = (1 < cooldownSeconds (step2Stats s)) \<and>
         processQueueStart s = s) \<and>
      runEvents jl (replicate n Tick) s =
        s\<lparr> stats := (tickStats ^^ n) (stats s), step2Stats := (tickStats ^^ n) (step2Stats s) \<rparr> \<and>
      (\<forall>c. \<not> isCoolingDown (stats s) \<and> processing (stats s) < maxConcurrency s \<and>
           apiKeyPresent s \<and> audioBufferLoaded s \<and>
           find (\<lambda>c. status c = Pending) (chunks s) = Some c \<longrightarrow>
         autoRun s =
           s\<lparr> stats := (stats s)\<lparr> processing := processing (stats s) + 1 \<rparr>,
              chunks := map (\<lambda>x. if chunk_id x = chunk_id c
                                  then x\<lparr> status := Processing \<rparr> else x) (chunks s),
              inFlight := chunk_id c # inFlight s \<rparr>) \<and>
      (\<forall>b. \<not> isCoolingDown (step2Stats s) \<and> isFinalizing s \<and>
           \<not> processing (step2Stats s) > 0 \<and>
           find (\<lambda>b. batch_status b = Pending) (step2Batches s) = Some b \<longrightarrow>
         processQueueStart s =
           s\<lparr> step2Batches := map (\<lambda>x. if batch_id x = batch_id b
                                         then x\<lparr> batch_status := Processing \<rparr> else x)
                                  (step2Batches s),
              step2Stats := (step2Stats s)\<lparr> processing := processing (step2Stats s) + 1 \<rparr>,
              step2InFlight := batch_id b # step2InFlight s \<rparr>) \<and>
      (\<forall>c. isCoolingDown (stats s) \<and> cooldownSeconds (stats s) = 60 \<and>
           processing (stats s) < maxConcurrency s \<and> apiKeyPresent s \<and> audioBufferLoaded s \<and>
           find (\<lambda>c. status c = Pending) (chunks s) = Some c \<longrightarrow>
         autoRun (runEvents jl (replicate 60 Tick) s) =
           (runEvents jl (replicate 60 Tick) s)
             \<lparr> stats := (stats (runEvents jl (replicate 60 Tick) s))
                           \<lparr> processing := processing (stats s) + 1 \<rparr>,
               chunks := map (\<lambda>x. if chunk_id x = chunk_id c
                                   then x\<lparr> status := Processing \<rparr> else x) (chunks s),
               inFlight := chunk_id c # inFlight s \<rparr>)) \<and>
   (isCoolingDown st \<and> cooldownSeconds st = 60 \<longrightarrow>
      (\<forall>k<60. isCoolingDown ((tickStats ^^ k) st) \<and>
               cooldownSeconds ((tickStats ^^ k) st) = 60 - int k) \<and>
      \<not> isCoolingDown ((tickStats ^^ 60) st) \<and> cooldownSeconds ((tickStats ^^ 60) st) = 0)"
proof -
  define s where "s = runEvents jl events (initialState key)"
  have inv: "cooldownInv (stats s)" "cooldownInv (step2Stats s)"
    using cooldownInv_run[OF cooldownInv_initial[of key], of jl events] by (simp_all add: s_def)
  have t1: "cooldownSeconds (stats (step jl Tick s)) = cooldownSeconds (stats s) - 1 \<and>
         isCoolingDown (stats (step jl Tick s)) = (1 < cooldownSeconds (stats s)) \<and>
         autoRun s = s" if "isCoolingDown (stats s)"
    using tick_decrements[OF inv(1) that] cooling_blocks_scanning(1)[OF that] by simp
  have t2: "cooldownSeconds (step2Stats (step jl Tick s)) = cooldownSeconds (step2Stats s) - 1 \<and>
         isCoolingDown (step2Stats (step jl Tick s)) = (1 < cooldownSeconds (step2Stats s)) \<and>
         processQueueStart s = s" if "isCoolingDown (step2Stats s)"
    using tick_decrements[OF inv(2) that] cooling_blocks_scanning(2)[OF that] by simp
  have run: "(\<forall>k<60. isCoolingDown ((tickStats ^^ k) st) \<and>
               cooldownSeconds ((tickStats ^^ k) st) = 60 - int k) \<and>
      \<not> isCoolingDown ((tickStats ^^ 60) st) \<and> cooldownSeconds ((tickStats ^^ 60) st) = 0"
    if "isCoolingDown st \<and> cooldownSeconds st = 60"
  proof -
    from that have cd: "isCoolingDown st" and c: "cooldownSeconds st = int 60" by simp_all
    have "isCoolingDown ((tickStats ^^ k) st) \<and> cooldownSeconds ((tickStats ^^ k) st) = 60 - int k"
      if "k < 60" for k
      using tickStats_countdown[OF cd c that] by simp
    moreover have "\<not> isCoolingDown ((tickStats ^^ 60) st) \<and> cooldownSeconds ((tickStats ^^ 60) st) = 0"
      using tickStats_expires[OF cd c] by simp
    ultimately show ?thesis by blast
  qed
  show ?thesis
    unfolding Let_def s_def[symmetric]
    apply (intro conjI allI impI)
    subgoal by (rule inv(1))
    subgoal by (rule inv(2))
    subgoal by (elim conjE) (rule chunk_rateLimit_sets_cooldown[THEN conjunct1])
    subgoal by (elim conjE) (rule chunk_rateLimit_sets_cooldown[THEN conjunct2, THEN conjunct1])
    subgoal by (elim conjE) (rule chunk_rateLimit_sets_cooldown[THEN conjunct2, THEN conjunct2])
    subgoal by (elim conjE) (rule batch_rateLimit_sets_cooldown[THEN conjunct1])
    subgoal by (elim conjE) (rule batch_rateLimit_sets_cooldown[THEN conjunct2, THEN conjunct1])
    subgoal by (elim conjE) (rule batch_rateLimit_sets_cooldown[THEN conjunct2, THEN conjunct2])
    subgoal by (rule t1[THEN conjunct1])
    subgoal by (rule t1[THEN conjunct2, THEN conjunct1])
    subgoal by (rule t1[THEN conjunct2, THEN conjunct2])
    subgoal by (rule t2[THEN conjunct1])
    subgoal by (rule t2[THEN conjunct2, THEN conjunct1])
    subgoal by (rule t2[THEN conjunct2, THEN conjunct2])
    subgoal by (rule ticks_run)
    subgoal by (elim conjE) (rule autoRun_resumes)
    subgoal by (elim conjE) (rule processQueue_resumes)
    subgoal by (elim conjE) (rule resumes_after_cooldown)
    subgoal for k using run[THEN conjunct1] by blast
    subgoal for k using run[THEN conjunct1] by blast
    subgoal by (rule run[THEN conjunct2, THEN conjunct1])
    subgoal by (rule run[THEN conjunct2, THEN conjunct2])
    done
qed

theorem cooldown_policy_witness:
  "isCoolingDown (stats (runEvents (\<lambda>item. 0) othersSettledRun (freshRun True 185))) \<and>
   cooldownSeconds (stats (runEvents (\<lambda>item. 0) othersSettledRun (freshRun True 185))) = 60 \<and>
   processing (stats (runEvents (\<lambda>item. 0) othersSettledRun (freshRun True 185))) = 0 \<and>
   maxConcurrency (runEvents (\<lambda>item. 0) othersSettledRun (freshRun True 185)) = 1 \<and>
   cooldownSeconds (stats (step (\<lambda>item. 0) Tick
      (runEvents (\<lambda>item. 0) othersSettledRun (freshRun True 185)))) = 59 \<and>
   autoRun (runEvents (\<lambda>item. 0) othersSettledRun (freshRun True 185))
     = runEvents (\<lambda>item. 0) othersSettledRun (freshRun True 185) \<and>
   \<not> isCoolingDown ((tickStats ^^ 60)
        (stats (runEvents (\<lambda>item. 0) othersSettledRun (freshRun True 185)))) \<and>
   inFlight (autoRun (runEvents (\<lambda>item. 0) cooledDownRun (freshRun True 185))) = [''chunk-0''] \<and>
   processing (stats (autoRun (runEvents (\<lambda>item. 0) cooledDownRun (freshRun True 185)))) = 1"
proof -
  define s where "s = runEvents (\<lambda>item. 0) othersSettledRun (freshRun True 185)"
  have e: "s = runEvents (\<lambda>item. 0) (InitializeStart # InitializeDecoded 185 # othersSettledRun)
                 (initialState True)"
    by (simp add: s_def runEvents_def freshRun_def)
  have c: "isCoolingDown (stats (runEvents (\<lambda>item. 0) othersSettledRun (freshRun True 185))) \<and>
      cooldownSeconds (stats (runEvents (\<lambda>item. 0) othersSettledRun (freshRun True 185))) = 60 \<and>
      processing (stats (runEvents (\<lambda>item. 0) othersSettledRun (freshRun True 185))) = 0 \<and>
      maxConcurrency (runEvents (\<lambda>item. 0) othersSettledRun (freshRun True 185)) = 1 \<and>
      apiKeyPresent (runEvents (\<lambda>item. 0) othersSettledRun (freshRun True 185)) \<and>
      audioBufferLoaded (runEvents (\<lambda>item. 0) othersSettledRun (freshRun True 185)) \<and>
      inFlight (runEvents (\<lambda>item. 0) othersSettledRun (freshRun True 185)) = [] \<and>
      map_option chunk_id (find (\<lambda>c. status c = Pending)
        (chunks (runEvents (\<lambda>item. 0) othersSettledRun (freshRun True 185)))) = Some ''chunk-0''"
    by code_simp
  then have c': "isCoolingDown (stats s)" "cooldownSeconds (stats s) = 60"
    "processing (stats s) = 0" "maxConcurrency s = 1" "apiKeyPresent s" "audioBufferLoaded s"
    "inFlight s = []"
    and f: "map_option chunk_id (find (\<lambda>c. status c = Pending) (chunks s)) = Some ''chunk-0''"
    by (simp_all add: s_def)
  from f obtain c where p: "find (\<lambda>c. status c = Pending) (chunks s) = Some c"
    and i: "chunk_id c = ''chunk-0''" by auto
  have r: "runEvents (\<lambda>item. 0) cooledDownRun (freshRun True 185)
      = runEvents (\<lambda>item. 0) (replicate 60 Tick) s"
    by (simp add: cooledDownRun_def runEvents_def s_def)
  note t = cooldown_policy[of "\<lambda>item. 0" "InitializeStart # InitializeDecoded 185 # othersSettledRun"
        True 60 "stats s", unfolded Let_def e[symmetric]]
  have pre: "isCoolingDown (stats s) \<and> cooldownSeconds (stats s) = 60 \<and>
           processing (stats s) < maxConcurrency s \<and> apiKeyPresent s \<and> audioBufferLoaded s \<and>
           find (\<lambda>c. status c = Pending) (chunks s) = Some c"
    using c' p by simp
  from t pre have a: "autoRun (runEvents (\<lambda>item. 0) (replicate 60 Tick) s) =
           (runEvents (\<lambda>item. 0) (replicate 60 Tick) s)
             \<lparr> stats := (stats (runEvents (\<lambda>item. 0) (replicate 60 Tick) s))
                           \<lparr> processing := processing (stats s) + 1 \<rparr>,
               chunks := map (\<lambda>x. if chunk_id x = chunk_id c
                                   then x\<lparr> status := Processing \<rparr> else x) (chunks s),
               inFlight := chunk_id c # inFlight s \<rparr>"
    by blast
  have w8: "inFlight (autoRun (runEvents (\<lambda>item. 0) cooledDownRun (freshRun True 185))) = [''chunk-0'']"
    unfolding r a by (simp add: i c')
  have w9: "processing (stats (autoRun (runEvents (\<lambda>item. 0) cooledDownRun (freshRun True 185)))) = 1"
    unfolding r a by (simp add: c')
  from t c'(1) have w56: "cooldownSeconds (stats (step (\<lambda>item. 0) Tick s)) = cooldownSeconds (stats s) - 1"
    "autoRun s = s"
    by blast+
  from t c'(1,2) have w7: "\<not> isCoolingDown ((tickStats ^^ 60) (stats s))"
    by blast
  show ?thesis
    unfolding s_def[symmetric]
    using c' w56 w7 w8[unfolded s_def[symmetric]] w9 by simp
qed

text \<open>
  The claim as stated fails: with 57 time units of cooldown left, a second rate-limit
  failure in stage 1 puts the remaining time back to 60.
\<close>

theorem second_signal_extends_counterexample:
  "cooldownSeconds (stats
      (runEvents (\<lambda>item. 0) (rateLimitedRun @ [Tick, Tick, Tick]) (freshRun True 185))) = 57 \<and>
   ''chunk-1'' \<in> set (inFlight
      (runEvents (\<lambda>item. 0) (rateLimitedRun @ [Tick, Tick, Tick]) (freshRun True 185))) \<and>
   cooldownSeconds (stats (runEvents (\<lambda>item. 0) secondSignalRun (freshRun True 185))) = 60"
  by code_simp

section \<open>Boundary-Fingerprint Merger\<close>

text \<open>
  What one round of the merger does with a parsed window: without a previous window, or
  without a match among its first two items, the window is appended whole; with a match,
  the items up to the first matching position are left out. The previous window is kept
  whole for the next round.
\<close>

lemma mergeChunk_parsed:
  assumes "content chunk = Some (Parsed (Some cur))"
  shows "mergeChunk lower chunk (merged, prev) =
     (merged @ (if prev = [] \<or> cur = [] then cur
                else case overlapIndex lower (drop (length prev - 2) prev) (take 2 cur) of
                       Some i \<Rightarrow> drop (i + 1) cur
                     | None \<Rightarrow> cur),
      cur)"
  using assms by (simp add: mergeChunk_def Let_def)

lemma overlapIndex_first:
  assumes "overlapIndex lower lastItems firstItems = Some k"
  shows "k < length firstItems"
    and "\<exists>l \<in> set lastItems. normalizeTextForDedupe lower (edited (firstItems ! k))
                               = normalizeTextForDedupe lower (edited l)"
    and "\<forall>i<k. \<forall>l \<in> set lastItems. normalizeTextForDedupe lower (edited (firstItems ! i))
                               \<noteq> normalizeTextForDedupe lower (edited l)"
proof -
  from assms obtain n where n: "n < length [0..<length firstItems]"
    and k: "k = [0..<length firstItems] ! n"
    and m: "list_ex (\<lambda>l. normalizeTextForDedupe lower (edited (firstItems ! k))
                              = normalizeTextForDedupe lower (edited l)) lastItems"
    and f: "\<forall>j<n. \<not> list_ex (\<lambda>l. normalizeTextForDedupe lower
                                     (edited (firstItems ! ([0..<length firstItems] ! j)))
                              = normalizeTextForDedupe lower (edited l)) lastItems"
    unfolding overlapIndex_def find_Some_iff by blast
  from n k have kn: "k = n" by simp
  show "k < length firstItems" using n kn by simp
  show "\<exists>l \<in> set lastItems. normalizeTextForDedupe lower (edited (firstItems ! k))
                               = normalizeTextForDedupe lower (edited l)"
    using m by (simp add: list_ex_iff)
  show "\<forall>i<k. \<forall>l \<in> set lastItems. normalizeTextForDedupe lower (edited (firstItems ! i))
                               \<noteq> normalizeTextForDedupe lower (edited l)"
  proof (intro allI impI)
    fix i assume "i < k"
    with kn n have i: "i < n" "[0..<length firstItems] ! i = i" by simp_all
    from f i(1) have "\<not> list_ex (\<lambda>l. normalizeTextForDedupe lower
                                     (edited (firstItems ! ([0..<length firstItems] ! i)))
                              = normalizeTextForDedupe lower (edited l)) lastItems"
      by blast
    then show "\<forall>l \<in> set lastItems. normalizeTextForDedupe lower (edited (firstItems ! i))
                               \<noteq> normalizeTextForDedupe lower (edited l)"
      unfolding i(2) by (simp add: list_ex_iff)
  qed
qed

text \<open>
  Claim C3, at an input where the code departs from it. The first window ends with the
  items \<open>Hello, world.\<close> and \<open>Second line\<close>; the second window starts with
  \<open>hello world\<close> and \<open>second   line!\<close>, which have the same normalized texts, and goes
  on with \<open>Third\<close>. The search stops at the first matching position, which is 0, so only
  the first item of the second window is left out and \<open>second   line!\<close> is kept beside
  \<open>Second line\<close>: the merged transcript has five items where the claim has four. With
  no match nothing is left out, and with a match of the first item alone that item is left
  out.
\<close>

theorem overlap_first_match_only:
  "normalizeTextForDedupe toLowerCase (Some ''hello world'')
     = normalizeTextForDedupe toLowerCase (Some ''Hello, world.'') \<and>
   normalizeTextForDedupe toLowerCase (Some ''second   line!'')
     = normalizeTextForDedupe toLowerCase (Some ''Second line'') \<and>
   overlapIndex toLowerCase [spoken ''Hello, world.'', spoken ''Second line'']
     [spoken ''hello world'', spoken ''second   line!''] = Some 0 \<and>
   map edited (mergeMonitor toLowerCase overlappingChunks)
     = [Some ''Opening'', Some ''Hello, world.'', Some ''Second line'',
        Some ''second   line!'', Some ''Third''] \<and>
   map edited (mergeMonitor toLowerCase disjointChunks)
     = [Some ''Opening'', Some ''Hello, world.'', Some ''Second line'', Some ''Third''] \<and>
   map edited (mergeMonitor toLowerCase oneSharedChunks)
     = [Some ''Opening'', Some ''Hello, world.'', Some ''Second line'', Some ''Third'']"
  by code_simp

section \<open>Stage 2: one batch at a time\<close>






















section \<open>Stage 2: a sample run\<close>

lemma sample_slim: "\<exists>a b c. buildSlimTranscript sampleItems = Some [a, b, c]"
  by (simp add: buildSlimTranscript_def sampleItems_def)

lemma three_batches:
  "buildBatchesByCharOrCount (\<lambda>item. 50000) [a, b, c] STEP2_TARGET_MAX_CHARS
     STEP2_MAX_ITEMS_PER_BATCH = [[a], [b], [c]]"
  by (simp add: buildBatchesByCharOrCount_def STEP2_TARGET_MAX_CHARS_def
      STEP2_MAX_ITEMS_PER_BATCH_def)

lemma upt3: "[0..<3] = [0, 1, 2]"
  by (simp add: upt_rec)

lemma small_numbers:
  "natToString 0 = ''0''" "natToString (Suc 0) = ''1''" "natToString (Suc (Suc 0)) = ''2''"
  by (simp_all add: natToString.simps)


text \<open>The state after the three events of \<open>stage2Start\<close>, written out.\<close>

lemma stage2Start_state:
  "\<exists>a b c. runEvents (\<lambda>item. 50000) stage2Start (initialState True) =
     (initialState True)
       \<lparr> step2Batches :=
           [\<lparr> batch_id = ''batch-0'', batch_index = 0, batch_items = [a],
              batch_status = Processing, batch_result = None, batch_error = None \<rparr>,
            \<lparr> batch_id = ''batch-1'', batch_index = 1, batch_items = [b],
              batch_status = Pending, batch_result = None, batch_error = None \<rparr>,
            \<lparr> batch_id = ''batch-2'', batch_index = 2, batch_items = [c],
              batch_status = Pending, batch_result = None, batch_error = None \<rparr>],
         step2Stats := \<lparr> total = 3, completed = 0, processing = 1, failed = 0,
                          isCoolingDown = False, cooldownSeconds = 0 \<rparr>,
         isFinalizing := True,
         step2InFlight := [''batch-0''] \<rparr>"
proof -
  obtain a b c where s: "buildSlimTranscript sampleItems = Some [a, b, c]"
    using sample_slim by blast
  have n: "length sampleItems \<noteq> 0" by (simp add: sampleItems_def)
  define s1 where "s1 = step (\<lambda>item. 50000) (TriggerStep2 sampleItems) (initialState True)"
  have e1: "s1 = (initialState True)
       \<lparr> step2Batches :=
           [\<lparr> batch_id = ''batch-0'', batch_index = 0, batch_items = [a],
              batch_status = Pending, batch_result = None, batch_error = None \<rparr>,
            \<lparr> batch_id = ''batch-1'', batch_index = 1, batch_items = [b],
              batch_status = Pending, batch_result = None, batch_error = None \<rparr>,
            \<lparr> batch_id = ''batch-2'', batch_index = 2, batch_items = [c],
              batch_status = Pending, batch_result = None, batch_error = None \<rparr>],
         step2Stats := \<lparr> total = 3, completed = 0, processing = 0, failed = 0,
                          isCoolingDown = False, cooldownSeconds = 0 \<rparr>,
         isFinalizing := True \<rparr>"
    unfolding s1_def using n
    by (simp add: performStep2Finalization_def initialState_def s three_batches upt3
        small_numbers Let_def)
  define s2 where "s2 = step (\<lambda>item. 50000) ProcessQueue s1"
  have e2: "s2 = (initialState True)
       \<lparr> step2Batches :=
           [\<lparr> batch_id = ''batch-0'', batch_index = 0, batch_items = [a],
              batch_status = Processing, batch_result = None, batch_error = None \<rparr>,
            \<lparr> batch_id = ''batch-1'', batch_index = 1, batch_items = [b],
              batch_status = Pending, batch_result = None, batch_error = None \<rparr>,
            \<lparr> batch_id = ''batch-2'', batch_index = 2, batch_items = [c],
              batch_status = Pending, batch_result = None, batch_error = None \<rparr>],
         step2Stats := \<lparr> total = 3, completed = 0, processing = 1, failed = 0,
                          isCoolingDown = False, cooldownSeconds = 0 \<rparr>,
         isFinalizing := True,
         step2InFlight := [''batch-0''] \<rparr>"
    unfolding s2_def e1 by (simp add: processQueueStart_def initialState_def)
  have e3: "step (\<lambda>item. 50000) ProcessQueue s2 = s2"
    unfolding e2 by (simp add: processQueueStart_def initialState_def)
  have u1: "performStep2Finalization (\<lambda>item. 50000) sampleItems (initialState True) = s1"
    by (simp add: s1_def)
  have u2: "processQueueStart s1 = s2" by (simp add: s2_def)
  have u3: "processQueueStart s2 = s2" using e3 by simp
  have "runEvents (\<lambda>item. 50000) stage2Start (initialState True) = s2"
    by (simp add: runEvents_def stage2Start_def u1 u2 u3)
  then show ?thesis unfolding e2 by blast
qed



section \<open>Stage 2: a batch that resolves by the fallback\<close>

lemma fallback_mode_includes:
  "includes_str (mode (buildStep2Fallback items reason)) ''FALLBACK''"
  by (simp add: buildStep2Fallback_def Let_def)

lemma fallbackNotes_plain: "fallbackNotes \<noteq> [] \<and> \<not> isRateLimit fallbackNotes"
  by (simp add: fallbackNotes_def isRateLimit_def)

lemma fallback_notes: "qa_notes (qa_audit (buildStep2Fallback items reason)) = fallbackNotes"
  by (simp add: buildStep2Fallback_def Let_def)

lemma batched_mode_plain:
  "\<not> includes_str ''POST_EDIT_LECTURE_SCRIPT_RESULT_BATCHED'' ''FALLBACK''"
  by simp

lemma merged_pair_mode:
  "mode (mergePostEditResults [l, r]) = ''POST_EDIT_LECTURE_SCRIPT_RESULT_BATCHED''"
  by (simp add: mergePostEditResults_def mergeStep_def)

text \<open>What the queue does with a settled call, batch by batch.\<close>

lemma settle_fallback:
  assumes "includes_str (mode result) ''FALLBACK''" "qa_notes (qa_audit result) \<noteq> []"
    "\<not> isRateLimit (qa_notes (qa_audit result))"
  shows "step2Batches (processQueueSettle batchId (Inr result) s) =
           map (\<lambda>b. if batch_id b = batchId
                     then b\<lparr> batch_status := Failed,
                             batch_error := Some (qa_notes (qa_audit result)) \<rparr>
                     else b) (step2Batches s)"
    and "step2Stats (processQueueSettle batchId (Inr result) s) =
           (step2Stats s)\<lparr> processing := 0, failed := failed (step2Stats s) + 1 \<rparr>"
  using assms
  by (simp_all add: processQueueSettle_def processQueueCatch_def errorMsg_def Let_def)

lemma settle_success:
  assumes "\<not> includes_str (mode result) ''FALLBACK''"
  shows "step2Batches (processQueueSettle batchId (Inr result) s) =
           map (\<lambda>b. if batch_id b = batchId
                     then b\<lparr> batch_status := Completed, batch_result := Some result,
                             batch_error := None \<rparr>
                     else b) (step2Batches s)"
    and "step2Stats (processQueueSettle batchId (Inr result) s) =
           (step2Stats s)\<lparr> processing := 0, completed := completed (step2Stats s) + 1 \<rparr>"
  using assms by (simp_all add: processQueueSettle_def)

section \<open>Stage 2: how the queue records a fallback\<close>

lemma updated_batches_with_id:
  assumes "b \<in> set (filter (\<lambda>b. batch_id b = batchId)
                      (map (\<lambda>b. if batch_id b = batchId then g b else b) bs))"
  shows "\<exists>b0. b = g b0"
proof -
  let ?f = "\<lambda>b. if batch_id b = batchId then g b else b"
  from assms have P: "batch_id b = batchId" and m: "b \<in> ?f ` set bs"
    by (simp_all only: set_filter set_map mem_Collect_eq)
  from m obtain b0 where b0: "b = ?f b0" by (rule imageE)
  show ?thesis
  proof (cases "batch_id b0 = batchId")
    case True
    with b0 have "b = g b0" by (simp only: simp_thms if_True)
    then show ?thesis ..
  next
    case False
    with b0 have "b = b0" by (simp only: simp_thms if_False)
    with P False show ?thesis by blast
  qed
qed

lemma settled_batches_failed:
  assumes "batchId \<in> set (step2InFlight s)" "includes_str (mode fb) ''FALLBACK''"
    "qa_notes (qa_audit fb) = fallbackNotes"
  shows "(\<forall>b \<in> set (batchesWithId batchId (step jl (BatchSettles batchId (Inr fb)) s)).
            batch_status b = Failed \<and> batch_error b = Some fallbackNotes) \<and>
         map batch_result (step2Batches (step jl (BatchSettles batchId (Inr fb)) s))
           = map batch_result (step2Batches s) \<and>
         failed (step2Stats (step jl (BatchSettles batchId (Inr fb)) s))
           = failed (step2Stats s) + 1 \<and>
         completed (step2Stats (step jl (BatchSettles batchId (Inr fb)) s))
           = completed (step2Stats s)"
proof -
  let ?s1 = "s\<lparr> step2InFlight := remove1 batchId (step2InFlight s) \<rparr>"
  have pre: "includes_str (mode fb) ''FALLBACK''" "qa_notes (qa_audit fb) \<noteq> []"
    "\<not> isRateLimit (qa_notes (qa_audit fb))"
    using assms(2) fallbackNotes_plain by (simp_all add: assms(3))
  have st: "step jl (BatchSettles batchId (Inr fb)) s = processQueueSettle batchId (Inr fb) ?s1"
    using assms(1) by (simp only: step.simps if_True)
  let ?f = "\<lambda>b. if batch_id b = batchId
                 then b\<lparr> batch_status := Failed, batch_error := Some fallbackNotes \<rparr> else b"
  have bs: "step2Batches (processQueueSettle batchId (Inr fb) ?s1) = map ?f (step2Batches s)"
    using settle_fallback(1)[OF pre, of batchId ?s1] by (simp add: assms(3))
  have ss: "step2Stats (processQueueSettle batchId (Inr fb) ?s1)
      = (step2Stats s)\<lparr> processing := 0, failed := failed (step2Stats s) + 1 \<rparr>"
    using settle_fallback(2)[OF pre, of batchId ?s1] by simp
  have a: "\<forall>b \<in> set (filter (\<lambda>b. batch_id b = batchId) (map ?f (step2Batches s))).
            batch_status b = Failed \<and> batch_error b = Some fallbackNotes"
  proof
    fix b assume "b \<in> set (filter (\<lambda>b. batch_id b = batchId) (map ?f (step2Batches s)))"
    from updated_batches_with_id[of b batchId
        "\<lambda>b. b\<lparr> batch_status := Failed, batch_error := Some fallbackNotes \<rparr>"
        "step2Batches s", OF this]
    obtain b0 where "b = b0\<lparr> batch_status := Failed, batch_error := Some fallbackNotes \<rparr>"
      by blast
    then show "batch_status b = Failed \<and> batch_error b = Some fallbackNotes" by simp
  qed
  have b: "map batch_result (map ?f (step2Batches s)) = map batch_result (step2Batches s)"
    by (induction "step2Batches s") auto
  show ?thesis
    unfolding st batchesWithId_def bs ss
    apply (intro conjI)
       apply (rule a)
      apply (rule b)
     apply simp
    apply simp
    done
qed

lemma settled_batches_success:
  assumes "batchId \<in> set (step2InFlight s)" "\<not> includes_str (mode result) ''FALLBACK''"
  shows "(\<forall>b \<in> set (batchesWithId batchId (step jl (BatchSettles batchId (Inr result)) s)).
            batch_status b = Completed \<and> batch_result b = Some result) \<and>
         completed (step2Stats (step jl (BatchSettles batchId (Inr result)) s))
           = completed (step2Stats s) + 1 \<and>
         failed (step2Stats (step jl (BatchSettles batchId (Inr result)) s))
           = failed (step2Stats s)"
proof -
  let ?s1 = "s\<lparr> step2InFlight := remove1 batchId (step2InFlight s) \<rparr>"
  have st: "step jl (BatchSettles batchId (Inr result)) s
              = processQueueSettle batchId (Inr result) ?s1"
    using assms(1) by (simp only: step.simps if_True)
  let ?f = "\<lambda>b. if batch_id b = batchId
                 then b\<lparr> batch_status := Completed, batch_result := Some result,
                         batch_error := None \<rparr> else b"
  have bs: "step2Batches (processQueueSettle batchId (Inr result) ?s1) = map ?f (step2Batches s)"
    using settle_success(1)[OF assms(2), of batchId ?s1] by simp
  have ss: "step2Stats (processQueueSettle batchId (Inr result) ?s1)
      = (step2Stats s)\<lparr> processing := 0, completed := completed (step2Stats s) + 1 \<rparr>"
    using settle_success(2)[OF assms(2), of batchId ?s1] by simp
  have a: "\<forall>b \<in> set (filter (\<lambda>b. batch_id b = batchId) (map ?f (step2Batches s))).
            batch_status b = Completed \<and> batch_result b = Some result"
  proof
    fix b assume "b \<in> set (filter (\<lambda>b. batch_id b = batchId) (map ?f (step2Batches s)))"
    from updated_batches_with_id[of b batchId
        "\<lambda>b. b\<lparr> batch_status := Completed, batch_result := Some result,
                 batch_error := None \<rparr>"
        "step2Batches s", OF this]
    obtain b0 where "b = b0\<lparr> batch_status := Completed, batch_result := Some result,
                 batch_error := None \<rparr>"
      by blast
    then show "batch_status b = Completed \<and> batch_result b = Some result" by simp
  qed
  show ?thesis
    unfolding st batchesWithId_def bs ss
    apply (intro conjI)
      apply (rule a)
     apply simp
    apply simp
    done
qed

lemma exhausted_split_merges:
  assumes "exhaustsRetriesAndSplits api items path" "\<not> unitFallsBack api items path"
  shows "\<exists>l r. runStep2Robust api items path = Inr (mergePostEditResults [l, r]) \<and>
           passesItemsThrough items (mergePostEditResults [l, r])"
proof -
  let ?mid = "length items div 2"
  let ?L = "runStep2Robust api (take ?mid items) (path @ [False])"
  let ?R = "runStep2Robust api (drop ?mid items) (path @ [True])"
  from assms(1) have ex: "exit (retryLoop (api path) 0) = Exhausted"
    by (subst (asm) exhaustsRetriesAndSplits.simps) simp
  with assms(2) have sp: "length items > STEP2_MIN_SPLIT_ITEMS \<and> length path < STEP2_MAX_SPLIT_DEPTH"
    and nl: "\<not> isl ?L" and nr: "\<not> isl ?R"
    by (auto simp: unitFallsBack_def split: if_splits)
  with assms(1) have eL: "exhaustsRetriesAndSplits api (take ?mid items) (path @ [False])"
    and eR: "exhaustsRetriesAndSplits api (drop ?mid items) (path @ [True])"
    by (subst (asm) exhaustsRetriesAndSplits.simps, simp)+
  from exhausted_result[OF eL] obtain l where
    l: "?L = Inr l" "passesItemsThrough (take ?mid items) l" by blast
  from exhausted_result[OF eR] obtain r where
    r: "?R = Inr r" "passesItemsThrough (drop ?mid items) r" by blast
  have "runStep2Robust api items path = Inr (mergePostEditResults [l, r])"
    using ex sp l(1) r(1) by (subst runStep2Robust.simps) (simp add: Let_def)
  then show ?thesis using passesItemsThrough_merge[OF l(2) r(2)] by blast
qed

lemma settled_unit_fallback:
  assumes "batchId \<in> set (step2InFlight s)" "unitFallsBack api items []"
  shows "(\<forall>b \<in> set (batchesWithId batchId
              (step jl (BatchSettles batchId (runStep2Robust api items [])) s)).
            batch_status b = Failed \<and> batch_error b = Some fallbackNotes) \<and>
       map batch_result (step2Batches (step jl (BatchSettles batchId (runStep2Robust api items [])) s))
         = map batch_result (step2Batches s) \<and>
       failed (step2Stats (step jl (BatchSettles batchId (runStep2Robust api items [])) s))
         = failed (step2Stats s) + 1 \<and>
       completed (step2Stats (step jl (BatchSettles batchId (runStep2Robust api items [])) s))
         = completed (step2Stats s)"
  unfolding unitFallsBack_gives_fallback[OF assms(2)]
  by (rule settled_batches_failed[OF assms(1) fallback_mode_includes fallback_notes])

lemma settled_split_fallbacks:
  assumes "batchId \<in> set (step2InFlight s)"
    "exhaustsRetriesAndSplits api items []" "\<not> unitFallsBack api items []"
  shows "\<exists>r. runStep2Robust api items [] = Inr r \<and> passesItemsThrough items r \<and>
       (\<forall>b \<in> set (batchesWithId batchId
              (step jl (BatchSettles batchId (runStep2Robust api items [])) s)).
            batch_status b = Completed \<and> batch_result b = Some r) \<and>
       completed (step2Stats (step jl (BatchSettles batchId (runStep2Robust api items [])) s))
         = completed (step2Stats s) + 1 \<and>
       failed (step2Stats (step jl (BatchSettles batchId (runStep2Robust api items [])) s))
         = failed (step2Stats s)"
proof -
  from exhausted_split_merges[OF assms(2,3)] obtain l r where
    run: "runStep2Robust api items [] = Inr (mergePostEditResults [l, r])"
    and p: "passesItemsThrough items (mergePostEditResults [l, r])" by blast
  have m: "\<not> includes_str (mode (mergePostEditResults [l, r])) ''FALLBACK''"
    unfolding merged_pair_mode by (rule batched_mode_plain)
  show ?thesis
    unfolding run
    apply (rule exI[of _ "mergePostEditResults [l, r]"])
    apply (intro conjI)
        apply (rule refl)
       apply (rule p)
       apply (rule settled_batches_success[OF assms(1) m, THEN conjunct1])
      apply (rule settled_batches_success[OF assms(1) m, THEN conjunct2, THEN conjunct1])
     apply (rule settled_batches_success[OF assms(1) m, THEN conjunct2, THEN conjunct2])
    done
qed

text \<open>
  Claim C6, as the code has it. When the call for a batch returns the deterministic
  fallback of the whole batch (the retries are exhausted and the batch could not be split,
  or a half threw), the queue turns it into an error: every batch with that id is recorded
  as failed, with the fallback's notes as its error message; no result is stored, the
  failed counter goes up by one and the completed counter stays. The same happens whenever
  the call returns a deterministic fallback, also the one the schema check of a response
  builds. When the retries are exhausted, the batch is split and the two halves resolve by
  fallbacks of their own, the call returns the merge of the halves' results, and the batch
  is recorded as completed with that result, which passes the items through with
  \<open>needs_review\<close> on every entry, the flag \<open>FALLBACK_USED\<close> and a reason code. Any
  result whose mode does not contain \<open>FALLBACK\<close> is recorded as completed with that
  result.
\<close>

theorem fallback_batch_recorded:
  assumes "batchId \<in> set (step2InFlight s)"
  shows "(unitFallsBack api items [] \<longrightarrow>
       (\<forall>b \<in> set (batchesWithId batchId
              (step jl (BatchSettles batchId (runStep2Robust api items [])) s)).
            batch_status b = Failed \<and> batch_error b = Some fallbackNotes) \<and>
       map batch_result (step2Batches (step jl (BatchSettles batchId (runStep2Robust api items [])) s))
         = map batch_result (step2Batches s) \<and>
       failed (step2Stats (step jl (BatchSettles batchId (runStep2Robust api items [])) s))
         = failed (step2Stats s) + 1 \<and>
       completed (step2Stats (step jl (BatchSettles batchId (runStep2Robust api items [])) s))
         = completed (step2Stats s)) \<and>
    (runStep2Robust api items [] = Inr (buildStep2Fallback its reason) \<longrightarrow>
       (\<forall>b \<in> set (batchesWithId batchId
              (step jl (BatchSettles batchId (runStep2Robust api items [])) s)).
            batch_status b = Failed \<and> batch_error b = Some fallbackNotes) \<and>
       map batch_result (step2Batches (step jl (BatchSettles batchId (runStep2Robust api items [])) s))
         = map batch_result (step2Batches s) \<and>
       failed (step2Stats (step jl (BatchSettles batchId (runStep2Robust api items [])) s))
         = failed (step2Stats s) + 1 \<and>
       completed (step2Stats (step jl (BatchSettles batchId (runStep2Robust api items [])) s))
         = completed (step2Stats s)) \<and>
    (exhaustsRetriesAndSplits api items [] \<and> \<not> unitFallsBack api items [] \<longrightarrow>
       (\<exists>r. runStep2Robust api items [] = Inr r \<and> passesItemsThrough items r \<and>
          (\<forall>b \<in> set (batchesWithId batchId
              (step jl (BatchSettles batchId (runStep2Robust api items [])) s)).
            batch_status b = Completed \<and> batch_result b = Some r) \<and>
          completed (step2Stats (step jl (BatchSettles batchId (runStep2Robust api items [])) s))
            = completed (step2Stats s) + 1 \<and>
          failed (step2Stats (step jl (BatchSettles batchId (runStep2Robust api items [])) s))
            = failed (step2Stats s))) \<and>
    (\<not> includes_str (mode result) ''FALLBACK'' \<longrightarrow>
       (\<forall>b \<in> set (batchesWithId batchId (step jl (BatchSettles batchId (Inr result)) s)).
            batch_status b = Completed \<and> batch_result b = Some result) \<and>
       completed (step2Stats (step jl (BatchSettles batchId (Inr result)) s))
         = completed (step2Stats s) + 1 \<and>
       failed (step2Stats (step jl (BatchSettles batchId (Inr result)) s))
         = failed (step2Stats s))"
proof (intro conjI impI)
  assume u: "unitFallsBack api items []"
  note f = settled_unit_fallback[OF assms u, of jl]
  show "\<forall>b \<in> set (batchesWithId batchId
              (step jl (BatchSettles batchId (runStep2Robust api items [])) s)).
            batch_status b = Failed \<and> batch_error b = Some fallbackNotes"
    by (rule f[THEN conjunct1])
  show "map batch_result (step2Batches (step jl (BatchSettles batchId (runStep2Robust api items [])) s))
         = map batch_result (step2Batches s)"
    by (rule f[THEN conjunct2, THEN conjunct1])
  show "failed (step2Stats (step jl (BatchSettles batchId (runStep2Robust api items [])) s))
         = failed (step2Stats s) + 1"
    by (rule f[THEN conjunct2, THEN conjunct2, THEN conjunct1])
  show "completed (step2Stats (step jl (BatchSettles batchId (runStep2Robust api items [])) s))
         = completed (step2Stats s)"
    by (rule f[THEN conjunct2, THEN conjunct2, THEN conjunct2])
next
  assume e: "runStep2Robust api items [] = Inr (buildStep2Fallback its reason)"
  note f = settled_batches_failed[OF assms fallback_mode_includes fallback_notes,
      of jl its reason, folded e]
  show "\<forall>b \<in> set (batchesWithId batchId
              (step jl (BatchSettles batchId (runStep2Robust api items [])) s)).
            batch_status b = Failed \<and> batch_error b = Some fallbackNotes"
    by (rule f[THEN conjunct1])
  show "map batch_result (step2Batches (step jl (BatchSettles batchId (runStep2Robust api items [])) s))
         = map batch_result (step2Batches s)"
    by (rule f[THEN conjunct2, THEN conjunct1])
  show "failed (step2Stats (step jl (BatchSettles batchId (runStep2Robust api items [])) s))
         = failed (step2Stats s) + 1"
    by (rule f[THEN conjunct2, THEN conjunct2, THEN conjunct1])
  show "completed (step2Stats (step jl (BatchSettles batchId (runStep2Robust api items [])) s))
         = completed (step2Stats s)"
    by (rule f[THEN conjunct2, THEN conjunct2, THEN conjunct2])
next
  assume "exhaustsRetriesAndSplits api items [] \<and> \<not> unitFallsBack api items []"
  then have e: "exhaustsRetriesAndSplits api items []" and n: "\<not> unitFallsBack api items []"
    by (rule conjunct1, rule conjunct2)
  show "\<exists>r. runStep2Robust api items [] = Inr r \<and> passesItemsThrough items r \<and>
          (\<forall>b \<in> set (batchesWithId batchId
              (step jl (BatchSettles batchId (runStep2Robust api items [])) s)).
            batch_status b = Completed \<and> batch_result b = Some r) \<and>
          completed (step2Stats (step jl (BatchSettles batchId (runStep2Robust api items [])) s))
            = completed (step2Stats s) + 1 \<and>
          failed (step2Stats (step jl (BatchSettles batchId (runStep2Robust api items [])) s))
            = failed (step2Stats s)"
    by (rule settled_split_fallbacks[OF assms e n])
next
  assume m: "\<not> includes_str (mode result) ''FALLBACK''"
  note g = settled_batches_success[OF assms m, of jl]
  show "\<forall>b \<in> set (batchesWithId batchId (step jl (BatchSettles batchId (Inr result)) s)).
            batch_status b = Completed \<and> batch_result b = Some result"
    by (rule g[THEN conjunct1])
  show "completed (step2Stats (step jl (BatchSettles batchId (Inr result)) s))
         = completed (step2Stats s) + 1"
    by (rule g[THEN conjunct2, THEN conjunct1])
  show "failed (step2Stats (step jl (BatchSettles batchId (Inr result)) s))
         = failed (step2Stats s)"
    by (rule g[THEN conjunct2, THEN conjunct2])
qed

theorem fallback_batch_recorded_witness:
  "step2InFlight (runEvents (\<lambda>item. 50000) stage2Start (initialState True)) = [''batch-0''] \<and>
   unitFallsBack alwaysInvalidJSON sampleItems [] \<and>
   exhaustsRetriesAndSplits alwaysInvalidJSON fortyOneItems [] \<and>
   \<not> unitFallsBack alwaysInvalidJSON fortyOneItems [] \<and>
   \<not> includes_str (mode sampleResultA) ''FALLBACK'' \<and>
   map batch_status (step2Batches (step (\<lambda>item. 50000)
       (BatchSettles ''batch-0'' (runStep2Robust alwaysInvalidJSON sampleItems []))
       (runEvents (\<lambda>item. 50000) stage2Start (initialState True))))
     = [Failed, Pending, Pending] \<and>
   failed (step2Stats (step (\<lambda>item. 50000)
       (BatchSettles ''batch-0'' (runStep2Robust alwaysInvalidJSON sampleItems []))
       (runEvents (\<lambda>item. 50000) stage2Start (initialState True)))) = 1 \<and>
   map batch_status (step2Batches (step (\<lambda>item. 50000)
       (BatchSettles ''batch-0'' (runStep2Robust alwaysInvalidJSON fortyOneItems []))
       (runEvents (\<lambda>item. 50000) stage2Start (initialState True))))
     = [Completed, Pending, Pending] \<and>
   completed (step2Stats (step (\<lambda>item. 50000)
       (BatchSettles ''batch-0'' (runStep2Robust alwaysInvalidJSON fortyOneItems []))
       (runEvents (\<lambda>item. 50000) stage2Start (initialState True)))) = 1 \<and>
   map batch_result (step2Batches (step (\<lambda>item. 50000)
       (BatchSettles ''batch-0'' (Inr sampleResultA))
       (runEvents (\<lambda>item. 50000) stage2Start (initialState True))))
     = [Some sampleResultA, None, None]"
proof -
  define S where "S = runEvents (\<lambda>item. 50000) stage2Start (initialState True)"
  obtain a b c where e: "S =
     (initialState True)
       \<lparr> step2Batches :=
           [\<lparr> batch_id = ''batch-0'', batch_index = 0, batch_items = [a],
              batch_status = Processing, batch_result = None, batch_error = None \<rparr>,
            \<lparr> batch_id = ''batch-1'', batch_index = 1, batch_items = [b],
              batch_status = Pending, batch_result = None, batch_error = None \<rparr>,
            \<lparr> batch_id = ''batch-2'', batch_index = 2, batch_items = [c],
              batch_status = Pending, batch_result = None, batch_error = None \<rparr>],
         step2Stats := \<lparr> total = 3, completed = 0, processing = 1, failed = 0,
                          isCoolingDown = False, cooldownSeconds = 0 \<rparr>,
         isFinalizing := True,
         step2InFlight := [''batch-0''] \<rparr>"
    unfolding S_def using stage2Start_state by blast
  have i: "step2InFlight S = [''batch-0'']" and m: "''batch-0'' \<in> set (step2InFlight S)"
    and z: "failed (step2Stats S) = 0" "completed (step2Stats S) = 0"
    unfolding e by simp_all
  have st: "step (\<lambda>item. 50000) (BatchSettles ''batch-0'' res) S
      = processQueueSettle ''batch-0'' res (S\<lparr> step2InFlight := [] \<rparr>)" for res
    using i by simp
  have small: "length sampleItems \<le> STEP2_MIN_SPLIT_ITEMS"
    by (simp add: sampleItems_def STEP2_MIN_SPLIT_ITEMS_def)
  have u3: "unitFallsBack alwaysInvalidJSON sampleItems []"
    and r3: "runStep2Robust alwaysInvalidJSON sampleItems []
     = Inr (buildStep2Fallback sampleItems ''MAX_RETRIES_AND_SPLITS_FAILED'')"
    using invalid_json_small[OF small] by simp_all
  have e41: "exhaustsRetriesAndSplits alwaysInvalidJSON fortyOneItems []"
    by (rule invalid_json_exhausts_all)
  have n41: "\<not> unitFallsBack alwaysInvalidJSON fortyOneItems []"
    using invalid_json_never_throws
    by (simp add: unitFallsBack_def fortyOneItems_def STEP2_MIN_SPLIT_ITEMS_def
        STEP2_MAX_SPLIT_DEPTH_def)
  have pa: "\<not> includes_str (mode sampleResultA) ''FALLBACK''"
    by (simp add: sampleResultA_def)
  have pre: "includes_str (mode (buildStep2Fallback sampleItems ''MAX_RETRIES_AND_SPLITS_FAILED'')) ''FALLBACK''"
    "qa_notes (qa_audit (buildStep2Fallback sampleItems ''MAX_RETRIES_AND_SPLITS_FAILED'')) \<noteq> []"
    "\<not> isRateLimit (qa_notes (qa_audit (buildStep2Fallback sampleItems ''MAX_RETRIES_AND_SPLITS_FAILED'')))"
    using fallback_mode_includes fallbackNotes_plain by (simp_all add: fallback_notes)
  have s3: "map batch_status (step2Batches (step (\<lambda>item. 50000)
       (BatchSettles ''batch-0'' (runStep2Robust alwaysInvalidJSON sampleItems [])) S))
     = [Failed, Pending, Pending]"
    unfolding r3 st settle_fallback(1)[OF pre] by (simp add: e)
  have pm: "\<not> includes_str (mode (mergePostEditResults
            [buildStep2Fallback (take 20 fortyOneItems) ''MAX_RETRIES_AND_SPLITS_FAILED'',
             buildStep2Fallback (drop 20 fortyOneItems) ''MAX_RETRIES_AND_SPLITS_FAILED''])) ''FALLBACK''"
    unfolding merged_pair_mode by (rule batched_mode_plain)
  have s41: "map batch_status (step2Batches (step (\<lambda>item. 50000)
       (BatchSettles ''batch-0'' (runStep2Robust alwaysInvalidJSON fortyOneItems [])) S))
     = [Completed, Pending, Pending]"
    unfolding fortyOne_result st settle_success(1)[OF pm] by (simp add: e)
  have sa: "map batch_result (step2Batches (step (\<lambda>item. 50000)
       (BatchSettles ''batch-0'' (Inr sampleResultA)) S))
     = [Some sampleResultA, None, None]"
    unfolding st settle_success(1)[OF pa] by (simp add: e)
  from fallback_batch_recorded[OF m, where api = alwaysInvalidJSON and items = sampleItems
      and jl = "\<lambda>item. 50000" and result = sampleResultA] u3
  have "failed (step2Stats (step (\<lambda>item. 50000)
       (BatchSettles ''batch-0'' (runStep2Robust alwaysInvalidJSON sampleItems [])) S))
     = failed (step2Stats S) + 1"
    by blast
  then have f3: "failed (step2Stats (step (\<lambda>item. 50000)
       (BatchSettles ''batch-0'' (runStep2Robust alwaysInvalidJSON sampleItems [])) S)) = 1"
    by (simp only: z)
  from fallback_batch_recorded[OF m, where api = alwaysInvalidJSON and items = fortyOneItems
      and jl = "\<lambda>item. 50000" and result = sampleResultA]
    e41 n41
  have "completed (step2Stats (step (\<lambda>item. 50000)
       (BatchSettles ''batch-0'' (runStep2Robust alwaysInvalidJSON fortyOneItems [])) S))
     = completed (step2Stats S) + 1"
    by blast
  then have c41: "completed (step2Stats (step (\<lambda>item. 50000)
       (BatchSettles ''batch-0'' (runStep2Robust alwaysInvalidJSON fortyOneItems [])) S)) = 1"
    by (simp only: z)
  show ?thesis
    unfolding S_def[symmetric]
    using i u3 e41 n41 pa s3 f3 s41 c41 sa by blast
qed

theorem fallback_batch_failed_counterexample:
  "map batch_status (step2Batches (runEvents (\<lambda>item. 50000) fallbackRun (initialState True)))
     = [Failed, Pending, Pending] \<and>
   map batch_result (step2Batches (runEvents (\<lambda>item. 50000) fallbackRun (initialState True)))
     = [None, None, None] \<and>
   map batch_error (step2Batches (runEvents (\<lambda>item. 50000) fallbackRun (initialState True)))
     = [Some fallbackNotes, None, None] \<and>
   completed (step2Stats (runEvents (\<lambda>item. 50000) fallbackRun (initialState True))) = 0 \<and>
   failed (step2Stats (runEvents (\<lambda>item. 50000) fallbackRun (initialState True))) = 1 \<and>
   map (map_sum message mode) [firstBatchSettled] = [Inr ''POST_EDIT_LECTURE_SCRIPT_RESULT_FALLBACK'']"
proof -
  define S where "S = runEvents (\<lambda>item. 50000) stage2Start (initialState True)"
  obtain a b c where e: "S =
     (initialState True)
       \<lparr> step2Batches :=
           [\<lparr> batch_id = ''batch-0'', batch_index = 0, batch_items = [a],
              batch_status = Processing, batch_result = None, batch_error = None \<rparr>,
            \<lparr> batch_id = ''batch-1'', batch_index = 1, batch_items = [b],
              batch_status = Pending, batch_result = None, batch_error = None \<rparr>,
            \<lparr> batch_id = ''batch-2'', batch_index = 2, batch_items = [c],
              batch_status = Pending, batch_result = None, batch_error = None \<rparr>],
         step2Stats := \<lparr> total = 3, completed = 0, processing = 1, failed = 0,
                          isCoolingDown = False, cooldownSeconds = 0 \<rparr>,
         isFinalizing := True,
         step2InFlight := [''batch-0''] \<rparr>"
    unfolding S_def using stage2Start_state by blast
  have i: "step2InFlight S = [''batch-0'']" unfolding e by simp
  have st: "step (\<lambda>item. 50000) (BatchSettles ''batch-0'' res) S
      = processQueueSettle ''batch-0'' res (S\<lparr> step2InFlight := [] \<rparr>)" for res
    using i by simp
  have items: "batch_items (hd (step2Batches S)) = [a]" unfolding e by simp
  have f: "firstBatchSettled = Inr (buildStep2Fallback [a] ''MAX_RETRIES_AND_SPLITS_FAILED'')"
    unfolding firstBatchSettled_def S_def[symmetric] items
    by (rule invalid_json_small(2)) (simp add: STEP2_MIN_SPLIT_ITEMS_def)
  have pre: "includes_str (mode (buildStep2Fallback [a] ''MAX_RETRIES_AND_SPLITS_FAILED'')) ''FALLBACK''"
    "qa_notes (qa_audit (buildStep2Fallback [a] ''MAX_RETRIES_AND_SPLITS_FAILED'')) \<noteq> []"
    "\<not> isRateLimit (qa_notes (qa_audit (buildStep2Fallback [a] ''MAX_RETRIES_AND_SPLITS_FAILED'')))"
    using fallback_mode_includes fallbackNotes_plain by (simp_all add: fallback_notes)
  have run: "runEvents (\<lambda>item. 50000) fallbackRun (initialState True)
      = processQueueSettle ''batch-0'' firstBatchSettled (S\<lparr> step2InFlight := [] \<rparr>)"
    unfolding fallbackRun_def runEvents_def fold_append comp_def
    unfolding runEvents_def[symmetric] S_def[symmetric] by (simp add: runEvents_def i)
  have md: "mode (buildStep2Fallback [a] ''MAX_RETRIES_AND_SPLITS_FAILED'')
      = ''POST_EDIT_LECTURE_SCRIPT_RESULT_FALLBACK''"
    by (simp add: buildStep2Fallback_def Let_def)
  show ?thesis
    unfolding run f settle_fallback[OF pre] by (simp add: e fallback_notes md)
qed

section \<open>Robust Invocation Engine: which errors are retried\<close>

lemma startsWith_prefix: "startsWith s (p @ q) \<Longrightarrow> startsWith s p"
  by (induction s p rule: startsWith.induct) auto

lemma includes_str_shorter: "includes_str s (p @ q) \<Longrightarrow> includes_str s p"
proof (induction s)
  case Nil
  then show ?case by simp
next
  case (Cons x xs)
  then show ?case using startsWith_prefix[of "x # xs" p q] by auto
qed

lemma isInternalError_patterns:
  "isInternalError msg =
     (includes_str (toLowerCase msg) ''internal'' \<or> includes_str (toLowerCase msg) ''500'')"
proof -
  have "includes_str (toLowerCase msg) ''internal''"
    if "includes_str (toLowerCase msg) ''internal error''"
    using includes_str_shorter[of "toLowerCase msg" "''internal''" "'' error''"] that by simp
  then show ?thesis by (auto simp: isInternalError_def Let_def)
qed

lemma retryable_patterns:
  "retryable e =
     (includes_str (toLowerCase (errorMsg e)) ''internal'' \<or>
      includes_str (toLowerCase (errorMsg e)) ''500'' \<or>
      includes_str (errorMsg e) ''Invalid JSON'' \<or>
      errName e = ''SyntaxError'')"
  by (auto simp: retryable_def Let_def isInternalError_patterns isSyntaxError_def)

lemma first_error_thrown:
  assumes "runStep2Once (api path 0) = Inl err" "\<not> retryable err"
  shows "retryLoop (api path) 0 = \<lparr> exit = Thrown err, calls = 1, sleeps = [] \<rparr>"
    and "runStep2Robust api items path = Inl err"
proof -
  show l: "retryLoop (api path) 0 = \<lparr> exit = Thrown err, calls = 1, sleeps = [] \<rparr>"
    using retryLoop_throw[of 0 "api path" err] assms by simp
  show "runStep2Robust api items path = Inl err"
    by (rule runStep2Robust_rethrows) (simp add: l)
qed

lemma settled_rate_limit:
  assumes "batchId \<in> set (step2InFlight s)" "isRateLimit (errorMsg e)"
  shows "isCoolingDown (step2Stats (step jl (BatchSettles batchId (Inl e)) s)) \<and>
         cooldownSeconds (step2Stats (step jl (BatchSettles batchId (Inl e)) s)) = 60 \<and>
         processing (step2Stats (step jl (BatchSettles batchId (Inl e)) s)) = 0 \<and>
         failed (step2Stats (step jl (BatchSettles batchId (Inl e)) s)) = failed (step2Stats s) \<and>
         (\<forall>b \<in> set (batchesWithId batchId (step jl (BatchSettles batchId (Inl e)) s)).
            batch_status b = Pending)"
proof -
  let ?s1 = "s\<lparr> step2InFlight := remove1 batchId (step2InFlight s) \<rparr>"
  let ?f = "\<lambda>b. if batch_id b = batchId then b\<lparr> batch_status := Pending \<rparr> else b"
  have st: "step jl (BatchSettles batchId (Inl e)) s =
      ?s1\<lparr> step2Stats := (step2Stats s)\<lparr> isCoolingDown := True, cooldownSeconds := 60,
                                          processing := 0 \<rparr>,
           step2Batches := map ?f (step2Batches s) \<rparr>"
    using assms by (simp add: processQueueSettle_def processQueueCatch_def Let_def)
  have a: "\<forall>b \<in> set (filter (\<lambda>b. batch_id b = batchId) (map ?f (step2Batches s))).
            batch_status b = Pending"
  proof
    fix b assume "b \<in> set (filter (\<lambda>b. batch_id b = batchId) (map ?f (step2Batches s)))"
    from updated_batches_with_id[of b batchId "\<lambda>b. b\<lparr> batch_status := Pending \<rparr>"
        "step2Batches s", OF this]
    obtain b0 where "b = b0\<lparr> batch_status := Pending \<rparr>" by blast
    then show "batch_status b = Pending" by simp
  qed
  have b: "step2Batches (step jl (BatchSettles batchId (Inl e)) s) = map ?f (step2Batches s)"
    unfolding st by simp
  have c: "step2Stats (step jl (BatchSettles batchId (Inl e)) s)
      = (step2Stats s)\<lparr> isCoolingDown := True, cooldownSeconds := 60, processing := 0 \<rparr>"
    unfolding st by simp
  show ?thesis
    unfolding batchesWithId_def b c
    apply (intro conjI)
        apply simp
       apply simp
      apply simp
     apply simp
    apply (rule a)
    done
qed


lemma thrown_not_retryable:
  "exit (retryLoop attempt i) = Thrown err \<Longrightarrow> \<not> retryable err"
proof (induction "3 - i" arbitrary: i)
  case 0
  then show ?case by (subst (asm) retryLoop.simps) (simp add: STEP2_MAX_RETRIES_def)
next
  case (Suc n)
  then have n: "n = 3 - (i + 1)" and i: "i < 3" by auto
  show ?case
  proof (cases "runStep2Once (attempt i)")
    case (Inr r)
    with Suc.prems i show ?thesis
      by (subst (asm) retryLoop.simps) (simp add: STEP2_MAX_RETRIES_def)
  next
    case (Inl e)
    show ?thesis
    proof (cases "retryable e")
      case True
      with Suc.prems i Inl have "exit (retryLoop attempt (i + 1)) = Thrown err"
        by (subst (asm) retryLoop.simps) (simp add: STEP2_MAX_RETRIES_def Let_def)
      then show ?thesis by (rule Suc.hyps(1)[OF n])
    next
      case False
      with Suc.prems i Inl have "e = err"
        by (subst (asm) retryLoop.simps) (simp add: STEP2_MAX_RETRIES_def)
      with False show ?thesis by simp
    qed
  qed
qed

lemma rate_limited_limit: "isRateLimit (errorMsg error429Limit) \<and> retryable error429Limit"
  by (simp add: retryable_def errorMsg_def Let_def isInternalError_def toLowerCase_def
      lowerChar_def error429Limit_def isRateLimit_def)

lemma halves_rate_limited:
  "runStep2Robust halvesRateLimited (take 20 fortyOneItems) [False] = Inl error429"
  "runStep2Robust halvesRateLimited fortyOneItems []
     = Inr (buildStep2Fallback fortyOneItems ''SPLIT_AND_RETRY_FAILED'')"
proof -
  have len: "length fortyOneItems = 41" by (simp add: fortyOneItems_def)
  have n: "\<not> retryable error429" using error429_not_retryable by simp
  show l: "runStep2Robust halvesRateLimited (take 20 fortyOneItems) [False] = Inl error429"
    using first_error_thrown(2)[of halvesRateLimited "[False]" error429 "take 20 fortyOneItems"] n
    by (simp add: halvesRateLimited_def runStep2Once_def)
  have "\<forall>i<3. retryableFailure (halvesRateLimited [] i)"
    using retryable_invalid_json[of "''Unexpected token''"]
    by (simp add: halvesRateLimited_def retryableFailure_def runStep2Once_def)
  then have ex: "exit (retryLoop (halvesRateLimited []) 0) = Exhausted"
    using retryLoop_exhausted[of "halvesRateLimited []"] by simp
  have u: "unitFallsBack halvesRateLimited fortyOneItems []"
    using ex l by (simp add: unitFallsBack_def len STEP2_MIN_SPLIT_ITEMS_def STEP2_MAX_SPLIT_DEPTH_def)
  show "runStep2Robust halvesRateLimited fortyOneItems []
     = Inr (buildStep2Fallback fortyOneItems ''SPLIT_AND_RETRY_FAILED'')"
    using unitFallsBack_gives_fallback[OF u]
    by (simp add: len STEP2_MIN_SPLIT_ITEMS_def STEP2_MAX_SPLIT_DEPTH_def)
qed

text \<open>
  Claim C5, as the code has it. Malformed output (text that does not parse, a
  \<^verbatim>\<open>SyntaxError\<close>), an empty response and service-internal errors are retried: such
  failures get up to 3 attempts, with a delay of 2 seconds after the first and 6 seconds
  after the second (2 seconds times 3 per attempt), after which the loop is exhausted. The
  test that decides it is the one of the \<^verbatim>\<open>catch\<close> block: the message contains
  \<open>internal\<close> or \<open>500\<close> in any letter case, or \<open>Invalid JSON\<close>, or the error is a
  \<^verbatim>\<open>SyntaxError\<close>. A timeout does not pass that test: it is not retried. Every error
  that fails the test ends the loop at once, with no further call and no delay, and
  \<^verbatim>\<open>runStep2Robust\<close> throws it to its caller; an error it throws always fails the test.
  That is what happens to a rate-limit error that fails the test; and when the call for a
  whole batch throws a rate-limit error, the queue applies the cooldown policy: the batch
  goes back to pending, nothing is counted as failed, and the cooldown of 60 seconds starts.
\<close>

theorem retry_policy:
  "retryableFailure (InvalidJSON detail) \<and>
   retryableFailure EmptyText \<and>
   retryable (JsError ''SyntaxError'' m) \<and>
   (isInternalError (errorMsg e) \<longrightarrow> retryable e) \<and>
   (retryable e \<longleftrightarrow>
      includes_str (toLowerCase (errorMsg e)) ''internal'' \<or>
      includes_str (toLowerCase (errorMsg e)) ''500'' \<or>
      includes_str (errorMsg e) ''Invalid JSON'' \<or>
      errName e = ''SyntaxError'') \<and>
   \<not> retryableFailure TimesOut \<and>
   ((\<forall>i<3. retryableFailure (attempt i)) \<longrightarrow>
      retryLoop attempt 0 = \<lparr> exit = Exhausted, calls = 3, sleeps = [2000, 6000] \<rparr>) \<and>
   (k < 3 \<and> (\<forall>j<k. retryableFailure (attempt j)) \<and> runStep2Once (attempt k) = Inr r \<longrightarrow>
      retryLoop attempt 0 = \<lparr> exit = Returned r, calls = k + 1, sleeps = take k [2000, 6000] \<rparr>) \<and>
   (k < 3 \<and> (\<forall>j<k. retryableFailure (attempt j)) \<and> runStep2Once (attempt k) = Inl err
      \<and> \<not> retryable err \<longrightarrow>
      retryLoop attempt 0 = \<lparr> exit = Thrown err, calls = k + 1, sleeps = take k [2000, 6000] \<rparr>) \<and>
   (exit (retryLoop (api path) 0) = Thrown err \<longrightarrow>
      runStep2Robust api items path = Inl err \<and> \<not> retryable err) \<and>
   calls (retryLoop attempt 0) \<le> 3 \<and>
   (isRateLimit (errorMsg err) \<and> \<not> retryable err \<and> runStep2Once (api path 0) = Inl err \<longrightarrow>
      retryLoop (api path) 0 = \<lparr> exit = Thrown err, calls = 1, sleeps = [] \<rparr> \<and>
      runStep2Robust api items path = Inl err) \<and>
   (isRateLimit (errorMsg err) \<and> runStep2Robust api items [] = Inl err \<and>
    batchId \<in> set (step2InFlight s) \<longrightarrow>
      isCoolingDown (step2Stats
        (step jl (BatchSettles batchId (runStep2Robust api items [])) s)) \<and>
      cooldownSeconds (step2Stats
        (step jl (BatchSettles batchId (runStep2Robust api items [])) s)) = 60 \<and>
      processing (step2Stats
        (step jl (BatchSettles batchId (runStep2Robust api items [])) s)) = 0 \<and>
      failed (step2Stats
        (step jl (BatchSettles batchId (runStep2Robust api items [])) s)) = failed (step2Stats s) \<and>
      (\<forall>b \<in> set (batchesWithId batchId
           (step jl (BatchSettles batchId (runStep2Robust api items [])) s)).
         batch_status b = Pending))"
proof -
  have c1: "retryableFailure (InvalidJSON detail)"
    using retryable_invalid_json[of detail] by (simp add: retryableFailure_def runStep2Once_def)
  have c2: "retryableFailure EmptyText"
    by (simp add: retryableFailure_def runStep2Once_def retryable_empty_text)
  have c3: "retryable (JsError ''SyntaxError'' m)"
    by (simp add: retryable_def isSyntaxError_def Let_def)
  have c5: "\<not> retryableFailure TimesOut"
    by (simp add: retryableFailure_def runStep2Once_def timeout_not_retryable)
  have c7: "retryLoop attempt 0 = \<lparr> exit = Returned r, calls = k + 1, sleeps = take k [2000, 6000] \<rparr>"
    if "k < 3" "\<forall>j<k. retryableFailure (attempt j)" "runStep2Once (attempt k) = Inr r"
    using retryLoop_after_failures[OF that(1,2)] retryLoop_return[of k attempt r] that(1,3)
    by simp
  have c8: "retryLoop attempt 0 = \<lparr> exit = Thrown err, calls = k + 1, sleeps = take k [2000, 6000] \<rparr>"
    if "k < 3" "\<forall>j<k. retryableFailure (attempt j)" "runStep2Once (attempt k) = Inl err"
      "\<not> retryable err"
    using retryLoop_after_failures[OF that(1,2)] retryLoop_throw[of k attempt err] that(1,3,4)
    by simp
  have c9: "runStep2Robust api items path = Inl err \<and> \<not> retryable err"
    if "exit (retryLoop (api path) 0) = Thrown err"
    using runStep2Robust_rethrows[of api path err items] thrown_not_retryable[of "api path" 0 err] that by simp
  have c10: "retryLoop (api path) 0 = \<lparr> exit = Thrown err, calls = 1, sleeps = [] \<rparr> \<and>
      runStep2Robust api items path = Inl err"
    if "\<not> retryable err" "runStep2Once (api path 0) = Inl err"
    using first_error_thrown(1)[of api path err] first_error_thrown(2)[of api path err items] that
    by simp
  have c11: "isCoolingDown (step2Stats
        (step jl (BatchSettles batchId (runStep2Robust api items [])) s)) \<and>
      cooldownSeconds (step2Stats
        (step jl (BatchSettles batchId (runStep2Robust api items [])) s)) = 60 \<and>
      processing (step2Stats
        (step jl (BatchSettles batchId (runStep2Robust api items [])) s)) = 0 \<and>
      failed (step2Stats
        (step jl (BatchSettles batchId (runStep2Robust api items [])) s)) = failed (step2Stats s) \<and>
      (\<forall>b \<in> set (batchesWithId batchId
           (step jl (BatchSettles batchId (runStep2Robust api items [])) s)).
         batch_status b = Pending)"
    if "isRateLimit (errorMsg err)" "runStep2Robust api items [] = Inl err"
      "batchId \<in> set (step2InFlight s)"
    unfolding that(2) by (rule settled_rate_limit[OF that(3,1)])
  show ?thesis
    apply (intro conjI)
    subgoal by (rule c1)
    subgoal by (rule c2)
    subgoal by (rule c3)
    subgoal by (rule impI) (rule retryable_internal)
    subgoal by (rule retryable_patterns)
    subgoal by (rule c5)
    subgoal by (rule impI) (rule retryLoop_exhausted)
    subgoal by (intro impI, elim conjE) (rule c7)
    subgoal by (intro impI, elim conjE) (rule c8)
    subgoal by (rule impI) (rule c9)
    subgoal by (rule retryLoop_calls_le[of attempt 0, simplified])
    subgoal by (intro impI, elim conjE) (rule c10)
    subgoal by (intro impI, elim conjE) (rule c11)
    done
qed


theorem retry_policy_witness:
  "retryLoop (alwaysInvalidJSON []) 0 = \<lparr> exit = Exhausted, calls = 3, sleeps = [2000, 6000] \<rparr> \<and>
   retryLoop (invalidJSONOnce []) 0
     = \<lparr> exit = Returned sampleResultA, calls = 2, sleeps = [2000] \<rparr> \<and>
   isRateLimit (errorMsg error429) \<and> \<not> retryable error429 \<and>
   retryLoop (\<lambda>i. Rejects error429) 0 = \<lparr> exit = Thrown error429, calls = 1, sleeps = [] \<rparr> \<and>
   runStep2Robust (\<lambda>path i. Rejects error429) sampleItems [] = Inl error429 \<and>
   step2InFlight (runEvents (\<lambda>item. 50000) stage2Start (initialState True)) = [''batch-0''] \<and>
   isCoolingDown (step2Stats (step (\<lambda>item. 50000)
       (BatchSettles ''batch-0'' (runStep2Robust (\<lambda>path i. Rejects error429) sampleItems []))
       (runEvents (\<lambda>item. 50000) stage2Start (initialState True)))) \<and>
   cooldownSeconds (step2Stats (step (\<lambda>item. 50000)
       (BatchSettles ''batch-0'' (runStep2Robust (\<lambda>path i. Rejects error429) sampleItems []))
       (runEvents (\<lambda>item. 50000) stage2Start (initialState True)))) = 60 \<and>
   map batch_status (step2Batches (step (\<lambda>item. 50000)
       (BatchSettles ''batch-0'' (runStep2Robust (\<lambda>path i. Rejects error429) sampleItems []))
       (runEvents (\<lambda>item. 50000) stage2Start (initialState True))))
     = [Pending, Pending, Pending]"
proof -
  have f: "retryableFailure (InvalidJSON ''Unexpected token'')"
    by (rule retry_policy[where detail = "''Unexpected token''", THEN conjunct1])
  have all: "\<forall>i<3. retryableFailure (alwaysInvalidJSON [] i)"
    using f by (simp add: alwaysInvalidJSON_def)
  have w1: "retryLoop (alwaysInvalidJSON []) 0 = \<lparr> exit = Exhausted, calls = 3, sleeps = [2000, 6000] \<rparr>"
    by (rule retry_policy[where attempt = "alwaysInvalidJSON []", THEN conjunct2, THEN conjunct2, THEN conjunct2, THEN conjunct2, THEN conjunct2, THEN conjunct2, THEN conjunct1, THEN mp]) (rule all)
  have one: "(1::nat) < 3 \<and> (\<forall>j<1. retryableFailure (invalidJSONOnce [] j)) \<and>
      runStep2Once (invalidJSONOnce [] 1) = Inr sampleResultA"
    using f by (simp add: invalidJSONOnce_def runStep2Once_def)
  have "retryLoop (invalidJSONOnce []) 0
     = \<lparr> exit = Returned sampleResultA, calls = 1 + 1, sleeps = take 1 [2000, 6000] \<rparr>"
    by (rule retry_policy[where attempt = "invalidJSONOnce []" and k = 1 and r = sampleResultA,
          THEN conjunct2, THEN conjunct2, THEN conjunct2, THEN conjunct2, THEN conjunct2, THEN conjunct2, THEN conjunct2, THEN conjunct1, THEN mp]) (rule one)
  then have w2: "retryLoop (invalidJSONOnce []) 0
     = \<lparr> exit = Returned sampleResultA, calls = 2, sleeps = [2000] \<rparr>"
    by simp
  have rl: "isRateLimit (errorMsg error429)" and nr: "\<not> retryable error429"
    using error429_not_retryable by simp_all
  have first: "isRateLimit (errorMsg error429) \<and> \<not> retryable error429 \<and>
      runStep2Once (Rejects error429) = Inl error429"
    using rl nr by (simp add: runStep2Once_def)
  have w34: "retryLoop (\<lambda>i. Rejects error429) 0 = \<lparr> exit = Thrown error429, calls = 1, sleeps = [] \<rparr> \<and>
      runStep2Robust (\<lambda>path i. Rejects error429) sampleItems [] = Inl error429"
    by (rule retry_policy[where api = "\<lambda>path i. Rejects error429" and path = "[]"
          and err = error429 and items = sampleItems, THEN conjunct2, THEN conjunct2, THEN conjunct2, THEN conjunct2, THEN conjunct2, THEN conjunct2, THEN conjunct2, THEN conjunct2, THEN conjunct2, THEN conjunct2, THEN conjunct2, THEN conjunct1, THEN mp]) (rule first)
  then have w3: "retryLoop (\<lambda>i. Rejects error429) 0
      = \<lparr> exit = Thrown error429, calls = 1, sleeps = [] \<rparr>"
    and w4: "runStep2Robust (\<lambda>path i. Rejects error429) sampleItems [] = Inl error429"
    by (rule conjunct1, rule conjunct2)
  define S where "S = runEvents (\<lambda>item. 50000) stage2Start (initialState True)"
  obtain a b c where e: "S =
     (initialState True)
       \<lparr> step2Batches :=
           [\<lparr> batch_id = ''batch-0'', batch_index = 0, batch_items = [a],
              batch_status = Processing, batch_result = None, batch_error = None \<rparr>,
            \<lparr> batch_id = ''batch-1'', batch_index = 1, batch_items = [b],
              batch_status = Pending, batch_result = None, batch_error = None \<rparr>,
            \<lparr> batch_id = ''batch-2'', batch_index = 2, batch_items = [c],
              batch_status = Pending, batch_result = None, batch_error = None \<rparr>],
         step2Stats := \<lparr> total = 3, completed = 0, processing = 1, failed = 0,
                          isCoolingDown = False, cooldownSeconds = 0 \<rparr>,
         isFinalizing := True,
         step2InFlight := [''batch-0''] \<rparr>"
    unfolding S_def using stage2Start_state by blast
  have i: "step2InFlight S = [''batch-0'']" and m: "''batch-0'' \<in> set (step2InFlight S)"
    unfolding e by simp_all
  have top: "isRateLimit (errorMsg error429) \<and>
      runStep2Robust (\<lambda>path i. Rejects error429) sampleItems [] = Inl error429 \<and>
      ''batch-0'' \<in> set (step2InFlight S)"
    using rl w4 m by (intro conjI)
  note q = retry_policy[where api = "\<lambda>path i. Rejects error429" and err = error429
        and items = sampleItems and batchId = "''batch-0''" and s = S
        and jl = "\<lambda>item. 50000", THEN conjunct2, THEN conjunct2, THEN conjunct2, THEN conjunct2, THEN conjunct2, THEN conjunct2, THEN conjunct2, THEN conjunct2, THEN conjunct2, THEN conjunct2, THEN conjunct2, THEN conjunct2, THEN mp, OF top]
  have st: "map batch_status (step2Batches (step (\<lambda>item. 50000)
       (BatchSettles ''batch-0'' (runStep2Robust (\<lambda>path i. Rejects error429) sampleItems [])) S))
     = [Pending, Pending, Pending]"
    unfolding w4 using rl
    by (simp add: e processQueueSettle_def processQueueCatch_def Let_def)
  show ?thesis
    unfolding S_def[symmetric]
    apply (intro conjI)
    subgoal by (rule w1)
    subgoal by (rule w2)
    subgoal by (rule rl)
    subgoal by (rule nr)
    subgoal by (rule w3)
    subgoal by (rule w4)
    subgoal by (rule i)
    subgoal by (rule q[THEN conjunct1])
    subgoal by (rule q[THEN conjunct2, THEN conjunct1])
    subgoal by (rule st)
    done
qed

text \<open>
  The claim as stated fails for the timeout: a call that does not answer in time is not
  tried again. The loop makes one call, sleeps not at all and throws, although the second
  call would have succeeded; unparsable text in the same place is retried after 2 seconds.
  It also fails for a rate-limit error whose message holds \<open>500\<close>, which is called three
  times, and for a rate-limit error thrown by the call for a half of a split unit: the
  call for the whole unit catches it and returns the fallback, so it never reaches the
  queue.
\<close>

theorem timeout_not_retried_counterexample:
  "retryLoop (timesOutOnce []) 0 = \<lparr> exit = Thrown timeoutError, calls = 1, sleeps = [] \<rparr> \<and>
   runStep2Robust timesOutOnce sampleItems [] = Inl timeoutError \<and>
   retryLoop (invalidJSONOnce []) 0
     = \<lparr> exit = Returned sampleResultA, calls = 2, sleeps = [2000] \<rparr> \<and>
   runStep2Robust invalidJSONOnce sampleItems [] = Inr sampleResultA \<and>
   isRateLimit (errorMsg error429Limit) \<and>
   retryLoop (alwaysRateLimited []) 0 = \<lparr> exit = Exhausted, calls = 3, sleeps = [2000, 6000] \<rparr> \<and>
   isRateLimit (errorMsg error429) \<and>
   runStep2Robust halvesRateLimited (take 20 fortyOneItems) [False] = Inl error429 \<and>
   runStep2Robust halvesRateLimited fortyOneItems []
     = Inr (buildStep2Fallback fortyOneItems ''SPLIT_AND_RETRY_FAILED'')"
proof -
  have t: "retryLoop (timesOutOnce []) 0 = \<lparr> exit = Thrown timeoutError, calls = 1, sleeps = [] \<rparr>"
    using retryLoop_throw[of 0 "timesOutOnce []" timeoutError] timeout_not_retryable
    by (simp add: timesOutOnce_def runStep2Once_def)
  have f: "retryableFailure (invalidJSONOnce [] 0)"
    using retryable_invalid_json[of "''Unexpected token''"]
    by (simp add: invalidJSONOnce_def retryableFailure_def runStep2Once_def)
  have j: "retryLoop (invalidJSONOnce []) 0
     = \<lparr> exit = Returned sampleResultA, calls = 2, sleeps = [2000] \<rparr>"
    using retryLoop_after_failures[of 1 "invalidJSONOnce []"] f
      retryLoop_return[of 1 "invalidJSONOnce []" sampleResultA]
    by (simp add: invalidJSONOnce_def runStep2Once_def)
  have "\<forall>i<3. retryableFailure (alwaysRateLimited [] i)"
    using rate_limited_limit
    by (simp add: alwaysRateLimited_def retryableFailure_def runStep2Once_def)
  then have l: "retryLoop (alwaysRateLimited []) 0
      = \<lparr> exit = Exhausted, calls = 3, sleeps = [2000, 6000] \<rparr>"
    by (rule retryLoop_exhausted)
  show ?thesis
    using t j runStep2Robust_rethrows[of timesOutOnce "[]" timeoutError sampleItems]
      runStep2Robust_returns[of invalidJSONOnce "[]" sampleResultA sampleItems]
      l rate_limited_limit error429_not_retryable halves_rate_limited
    by simp
qed

end
